theory Spec2Isabelle
  imports Main "HOL-Library.Sublist"
begin

section \<open>Arrays and strings of the host language\<close>

text \<open>
  The front end is TypeScript. An array is a list; the array methods the code calls are
  written out here with the results JavaScript gives them. \<open>findIndex\<close> answers
  \<open>-1\<close> when no element satisfies the predicate, so its result is an \<open>int\<close>.
\<close>

fun findIndex :: "('a \<Rightarrow> bool) \<Rightarrow> 'a list \<Rightarrow> int" where
  "findIndex p [] = - 1"
| "findIndex p (x # xs) =
     (if p x then 0
      else (let i = findIndex p xs in if i = - 1 then - 1 else i + 1))"

text \<open>
  \<open>xs.slice(start, fin)\<close>: a negative bound counts from the end of the array, and both
  bounds are clamped to the array.
\<close>

definition slice :: "'a list \<Rightarrow> int \<Rightarrow> int \<Rightarrow> 'a list" where
  "slice xs start fin =
     (let len = int (length xs);
          k = (if start < 0 then max (len + start) 0 else min start len);
          final = (if fin < 0 then max (len + fin) 0 else min fin len)
      in take (nat (final - k)) (drop (nat k) xs))"

text \<open>\<open>xs.splice(start)\<close> with one non-negative argument keeps the first \<open>start\<close> elements.\<close>

definition splice :: "nat \<Rightarrow> 'a list \<Rightarrow> 'a list" where
  "splice start xs = take start xs"

definition endsWith :: "string \<Rightarrow> string \<Rightarrow> bool" where
  "endsWith s t = (length t \<le> length s \<and> drop (length s - length t) s = t)"

section \<open>The history cache (\<open>CacheService\<close>)\<close>

record DataStats =
  totalRows :: int
  cleanedRows :: int
  duplicatesRemoved :: int
  domesticSources :: int
  foreignSources :: int

text \<open>
  \<open>CachedReport\<close>. Its field \<open>id\<close> is called \<open>report_id\<close> here, and \<open>uploadId\<close> (the job
  identifier, a database serial number) is an integer.
\<close>

record CachedReport =
  report_id :: string
  uploadId :: int
  filename :: string
  uploadTime :: string
  completedTime :: string
  fileSize :: int
  stats :: DataStats

definition MAX_CACHE_SIZE :: nat where
  "MAX_CACHE_SIZE = 50"

text \<open>
  What \<open>JSON.parse\<close> can give back. The return type of \<open>getCachedReports\<close> declares an
  array of reports, but nothing checks it at run time: any JSON text stored under the key
  is parsed and handed on. The elements of an array are taken to be reports; the members
  of an object play no role, since none of them is callable.
\<close>

datatype js_value =
    JNull
  | JBool bool
  | JNum int
  | JStr string
  | JObj
  | JArr "CachedReport list"

text \<open>
  The item stored under \<open>CACHE_KEY\<close> in \<open>localStorage\<close>, described by what \<open>getItem\<close> and
  \<open>JSON.parse\<close> make of it: no item (\<open>getItem\<close> answers \<open>null\<close>), the empty string
  (falsy), a text that \<open>JSON.parse\<close> rejects with a \<open>SyntaxError\<close>, or a text that parses
  to a value. \<open>JSON.parse\<close> is taken to read back what \<open>JSON.stringify\<close> wrote.
\<close>

datatype localStorage =
    NoItem
  | EmptyText
  | Malformed
  | Json js_value

datatype error = TypeError

fun getCachedReports :: "localStorage \<Rightarrow> js_value" where
  "getCachedReports NoItem = JArr []"
| "getCachedReports EmptyText = JArr []"
| "getCachedReports Malformed = JArr []"
| "getCachedReports (Json v) = v"

text \<open>
  \<open>localStorage.setItem\<close> either stores the text or throws (the quota is exceeded, or
  storage is disabled). Which of the two happens is the browser's, so the outcome of the
  write is an argument of every operation that saves.
\<close>

datatype setItem_outcome = Stored | QuotaExceeded

text \<open>
  \<open>saveCachedReports\<close> catches what \<open>setItem\<close> throws and only logs it: the store is
  then left as it was, and the caller is not told.
\<close>

definition saveCachedReports ::
  "setItem_outcome \<Rightarrow> localStorage \<Rightarrow> CachedReport list \<Rightarrow> localStorage" where
  "saveCachedReports outcome ls reports =
     (case outcome of Stored \<Rightarrow> Json (JArr reports) | QuotaExceeded \<Rightarrow> ls)"

text \<open>
  \<open>addReport\<close>. On anything but an array the call \<open>reports.findIndex(...)\<close> throws a
  \<open>TypeError\<close> before anything is saved.
\<close>

definition addReport ::
  "setItem_outcome \<Rightarrow> localStorage \<Rightarrow> CachedReport \<Rightarrow> error + localStorage" where
  "addReport outcome ls report =
     (case getCachedReports ls of
        JArr reports \<Rightarrow>
          (let existingIndex = findIndex (\<lambda>r. uploadId r = uploadId report) reports in
           if existingIndex \<noteq> - 1
           then Inr (saveCachedReports outcome ls (reports[nat existingIndex := report]))
           else (let reports1 = report # reports;
                     reports2 = (if length reports1 > MAX_CACHE_SIZE
                                 then splice MAX_CACHE_SIZE reports1 else reports1)
                 in Inr (saveCachedReports outcome ls reports2)))
      | _ \<Rightarrow> Inl TypeError)"

definition getReports :: "localStorage \<Rightarrow> js_value" where
  "getReports ls = getCachedReports ls"

definition getReport :: "localStorage \<Rightarrow> int \<Rightarrow> error + CachedReport option" where
  "getReport ls uid =
     (case getCachedReports ls of
        JArr reports \<Rightarrow> Inr (find (\<lambda>r. uploadId r = uid) reports)
      | _ \<Rightarrow> Inl TypeError)"

definition removeReport ::
  "setItem_outcome \<Rightarrow> localStorage \<Rightarrow> int \<Rightarrow> error + localStorage" where
  "removeReport outcome ls uid =
     (case getCachedReports ls of
        JArr reports \<Rightarrow>
          Inr (saveCachedReports outcome ls (filter (\<lambda>r. uploadId r \<noteq> uid) reports))
      | _ \<Rightarrow> Inl TypeError)"

definition clearCache :: "localStorage \<Rightarrow> localStorage" where
  "clearCache ls = NoItem"

text \<open>
  \<open>getRecentReports(limit = 10)\<close>: the parameter is a number, and an absent argument
  (\<open>None\<close>) takes the default. A string has a \<open>slice\<close> method too; \<open>null\<close>, booleans,
  numbers and objects have none.
\<close>

definition getRecentReports :: "localStorage \<Rightarrow> int option \<Rightarrow> error + js_value" where
  "getRecentReports ls limit_opt =
     (let limit = (case limit_opt of None \<Rightarrow> 10 | Some n \<Rightarrow> n) in
      case getCachedReports ls of
        JArr reports \<Rightarrow> Inr (JArr (slice reports 0 limit))
      | JStr s \<Rightarrow> Inr (JStr (slice s 0 limit))
      | _ \<Rightarrow> Inl TypeError)"

text \<open>
  A sequence of \<open>addReport\<close> calls, each with the outcome of its write. Each call stands
  in a promise callback of its own, so a call that throws leaves the store as it was and
  the later calls still run.
\<close>

fun addReports :: "localStorage \<Rightarrow> (setItem_outcome \<times> CachedReport) list \<Rightarrow> localStorage" where
  "addReports ls [] = ls"
| "addReports ls ((outcome, r) # calls) =
     addReports (case addReport outcome ls r of Inl e \<Rightarrow> ls | Inr ls' \<Rightarrow> ls') calls"

text \<open>The reports of a sequence of calls whose writes the store accepted.\<close>

definition accepted :: "(setItem_outcome \<times> CachedReport) list \<Rightarrow> CachedReport list" where
  "accepted calls = map snd (filter (\<lambda>call. fst call = Stored) calls)"

text \<open>
  The order of insertion, as the specification means it: the job identifiers in the order
  in which they were inserted, newest first, never forgetting one. An upsert of an
  identifier that is among the \<open>MAX_CACHE_SIZE\<close> newest is a replacement and inserts
  nothing.
\<close>

fun insertion_log :: "int list \<Rightarrow> int list \<Rightarrow> int list" where
  "insertion_log log [] = log"
| "insertion_log log (j # js) =
     insertion_log (if j \<in> set (take MAX_CACHE_SIZE log) then log else j # log) js"

text \<open>A report with a given job identifier and a given total, for concrete runs.\<close>

definition report_of :: "int \<Rightarrow> int \<Rightarrow> CachedReport" where
  "report_of uid n =
     \<lparr>report_id = ''report'', uploadId = uid, filename = ''data.csv'',
      uploadTime = ''t0'', completedTime = ''t1'', fileSize = 0,
      stats = \<lparr>totalRows = n, cleanedRows = 0, duplicatesRemoved = 0,
               domesticSources = 0, foreignSources = 0\<rparr>\<rparr>"

section \<open>The step display (\<open>ProcessingStatus\<close>)\<close>

text \<open>
  The identifiers of the five steps, in display order (titles and descriptions play no
  role in the derivation).
\<close>

definition steps :: "string list" where
  "steps = [''upload'', ''clean'', ''dedupe'', ''workflow'', ''report'']"

text \<open>
  \<open>getStepStatus\<close> reads the component's \<open>currentStep\<close> and \<open>status\<close>, which are
  arguments here. A failure that is not answered inside the first \<open>if\<close> falls through
  to the rest of the function.
\<close>

definition getStepStatus :: "string \<Rightarrow> string \<Rightarrow> string \<Rightarrow> string" where
  "getStepStatus currentStep status stepId =
     (let stepIndex = findIndex (\<lambda>s. s = stepId) steps;
          currentIndex = findIndex (\<lambda>s. s = currentStep) steps;
          otherwise =
            (if currentStep = ''completed'' \<and> status = ''completed'' then ''completed''
             else if stepIndex < currentIndex
                     \<or> (stepIndex = currentIndex \<and> status = ''completed'')
                  then ''completed''
             else if stepIndex = currentIndex \<and> status = ''processing'' then ''processing''
             else ''pending'')
      in if status = ''failed''
         then (if currentStep = ''error''
               then (if stepIndex = int (length steps) - 1 then ''error''
                     else if stepIndex < int (length steps) - 1 then ''completed''
                     else ''pending'')
               else if stepIndex = currentIndex then ''error''
               else otherwise)
         else otherwise)"

section \<open>The upload form (\<open>FileUpload\<close>)\<close>

text \<open>A browser \<open>File\<close>: its name, its MIME type and its size.\<close>

record File =
  file_name :: string
  file_type :: string
  file_size :: nat

text \<open>
  The component's state (\<open>dragActive\<close>, which only styles the drop zone, is left out) and
  what it has done to the outside: the texts it has shown with \<open>alert\<close>, and the files
  it has passed to \<open>onFileUpload\<close>, the only path to the upload request, which is the
  only source of a job identifier.
\<close>

record FileUpload =
  selectedFile :: "File option"
  showConfirm :: bool
  alerts :: "string list"
  uploads :: "File list"

text \<open>The text of the alert, in UTF-8.\<close>

definition csv_alert :: string where
  "csv_alert = [CHR 0xE8, CHR 0xAF, CHR 0xB7, CHR 0xE4, CHR 0xB8, CHR 0x8A, CHR 0xE4, CHR 0xBC,
     CHR 0xA0, CHR 0x43, CHR 0x53, CHR 0x56, CHR 0xE6, CHR 0xA0, CHR 0xBC, CHR 0xE5, CHR 0xBC,
     CHR 0x8F, CHR 0xE7, CHR 0x9A, CHR 0x84, CHR 0xE6, CHR 0x96, CHR 0x87, CHR 0xE4, CHR 0xBB,
     CHR 0xB6]"

definition onDrop :: "FileUpload \<Rightarrow> File list \<Rightarrow> FileUpload" where
  "onDrop st acceptedFiles =
     (case acceptedFiles of
        [] \<Rightarrow> st
      | file # _ \<Rightarrow>
          if file_type file = ''text/csv'' \<or> endsWith (file_name file) ''.csv''
          then st\<lparr>selectedFile := Some file, showConfirm := True\<rparr>
          else st\<lparr>alerts := alerts st @ [csv_alert]\<rparr>)"

definition handleConfirmUpload :: "FileUpload \<Rightarrow> FileUpload" where
  "handleConfirmUpload st =
     (case selectedFile st of
        Some file \<Rightarrow> st\<lparr>uploads := uploads st @ [file], showConfirm := False, selectedFile := None\<rparr>
      | None \<Rightarrow> st)"

definition handleCancelUpload :: "FileUpload \<Rightarrow> FileUpload" where
  "handleCancelUpload st = st\<lparr>selectedFile := None, showConfirm := False\<rparr>"

text \<open>What a user can do to the form, and the form's state when it is mounted.\<close>

datatype form_event = Drop "File list" | ConfirmUpload | CancelUpload

fun form_step :: "FileUpload \<Rightarrow> form_event \<Rightarrow> FileUpload" where
  "form_step st (Drop files) = onDrop st files"
| "form_step st ConfirmUpload = handleConfirmUpload st"
| "form_step st CancelUpload = handleCancelUpload st"

definition form_run :: "FileUpload \<Rightarrow> form_event list \<Rightarrow> FileUpload" where
  "form_run st evs = foldl form_step st evs"

definition mounted :: FileUpload where
  "mounted = \<lparr>selectedFile = None, showConfirm = False, alerts = [], uploads = []\<rparr>"

section \<open>The progress stream as the application handles it (\<open>App\<close>)\<close>

text \<open>
  The job record itself is kept by the server, whose code is not among the sources. What
  the sources hold of a job is the state below: its stage (\<open>currentStep\<close>), its status
  and its progress as the application shows them, written by the handlers of the stream.

  \<open>ProcessingState\<close>. Its \<open>uploadId\<close> is called \<open>state_uploadId\<close> here; \<open>status\<close> is
  declared as one of four literals, but the handler stores whatever string the stream
  sends (\<open>data.status as any\<close>), so it is a string. \<open>progress\<close> is a number; the model
  takes the integers.
\<close>

record ProcessingState =
  processingId :: "int option"
  state_uploadId :: "int option"
  currentStep :: string
  status :: string
  progress :: int
  message :: "string option"
  errorMessage :: "string option"

text \<open>
  What a message of the stream carries, by its \<open>type\<close>. A \<open>progress\<close> message is a
  snapshot of the job (\<open>ProcessingStatusResponse\<close>): the fields the handler reads are kept,
  \<open>status\<close>, \<open>progress\<close> and \<open>message\<close> under the names \<open>data_status\<close>,
  \<open>data_progress\<close> and \<open>data_message\<close>. \<open>Finished\<close> carries \<open>data.status\<close>, \<open>Error\<close>
  and \<open>Timeout\<close> carry \<open>data.message\<close>, and \<open>Other\<close> is any other type.
\<close>

record ProgressData =
  upload_id :: "int option"
  current_step :: string
  data_status :: string
  data_progress :: int
  data_message :: "string option"
  error_message :: "string option"

datatype SseData =
    Connected
  | Progress ProgressData
  | Finished string
  | Error "string option"
  | Timeout "string option"
  | Other

text \<open>
  The part of the application the stream acts on: the processing state, whether
  \<open>eventSourceRef.current\<close> holds an open connection, the statistics requests sent
  so far (\<open>apiService.getDataStats\<close>, by upload identifier), the only request the handler
  ever sends, and the dependencies \<open>[processingId, status]\<close> with which the effect that
  owns the connection ran last. What the application does with the answer to a statistics
  request (it shows the statistics and caches a report with \<open>addReport\<close>) happens
  after the handler has returned.
\<close>

record App =
  processingState :: ProcessingState
  eventSource :: bool
  statsRequests :: "int list"
  effectDeps :: "int option \<times> string"

text \<open>The texts of the handlers and of the effect, in UTF-8: the default of a timeout, the
  prefix of a connection error, and the message when no connection can be made.\<close>

definition cannot_connect_text :: string where
  "cannot_connect_text = [CHR 0xE6, CHR 0x97, CHR 0xA0, CHR 0xE6, CHR 0xB3, CHR 0x95, CHR 0xE5,
     CHR 0xBB, CHR 0xBA, CHR 0xE7, CHR 0xAB, CHR 0x8B, CHR 0xE5, CHR 0xAE, CHR 0x9E, CHR 0xE6,
     CHR 0x97, CHR 0xB6, CHR 0xE8, CHR 0xBF, CHR 0x9E, CHR 0xE6, CHR 0x8E, CHR 0xA5]"

definition sse_timeout_text :: string where
  "sse_timeout_text = [CHR 0x53, CHR 0x53, CHR 0x45, CHR 0xE8, CHR 0xBF, CHR 0x9E, CHR 0xE6,
     CHR 0x8E, CHR 0xA5, CHR 0xE8, CHR 0xB6, CHR 0x85, CHR 0xE6, CHR 0x97, CHR 0xB6]"

definition connection_error_prefix :: string where
  "connection_error_prefix = [CHR 0xE8, CHR 0xBF, CHR 0x9E, CHR 0xE6, CHR 0x8E, CHR 0xA5,
     CHR 0xE9, CHR 0x94, CHR 0x99, CHR 0xE8, CHR 0xAF, CHR 0xAF, CHR 0x3A, CHR 0x20]"

text \<open>
  \<open>handleProgress\<close>. \<open>data.upload_id\<close> is truthy when it is present and not zero, and
  \<open>data.message || ...\<close> takes the default when the message is absent or empty.
\<close>

definition handleProgress :: "App \<Rightarrow> SseData \<Rightarrow> App" where
  "handleProgress app data =
     (case data of
        Connected \<Rightarrow> app
      | Progress d \<Rightarrow>
          (let app' = app\<lparr>processingState := (processingState app)
                 \<lparr>state_uploadId := upload_id d,
                  currentStep := current_step d,
                  status := data_status d,
                  progress := data_progress d,
                  message := data_message d,
                  errorMessage := error_message d\<rparr>\<rparr>
           in case upload_id d of
                Some uid \<Rightarrow>
                  if data_status d = ''completed'' \<and> uid \<noteq> 0
                  then app'\<lparr>statsRequests := statsRequests app' @ [uid]\<rparr>
                  else app'
              | None \<Rightarrow> app')
      | Finished s \<Rightarrow> app\<lparr>eventSource := False\<rparr>
      | Error m \<Rightarrow>
          app\<lparr>processingState := (processingState app)
                 \<lparr>status := ''failed'', errorMessage := m\<rparr>,
              eventSource := False\<rparr>
      | Timeout m \<Rightarrow>
          app\<lparr>processingState := (processingState app)
                 \<lparr>status := ''failed'',
                  errorMessage := Some (case m of
                                          None \<Rightarrow> sse_timeout_text
                                        | Some t \<Rightarrow> if t = [] then sse_timeout_text else t)\<rparr>,
              eventSource := False\<rparr>
      | Other \<Rightarrow> app)"

definition handleError :: "App \<Rightarrow> string \<Rightarrow> App" where
  "handleError app err =
     app\<lparr>processingState := (processingState app)
            \<lparr>status := ''failed'', errorMessage := Some (connection_error_prefix @ err)\<rparr>,
         eventSource := False\<rparr>"

text \<open>
  The effect that owns the connection (\<open>useEffect\<close> with the dependencies
  \<open>[processingId, status]\<close>). Its cleanup closes the connection the reference holds.
  Its body, when there is a processing identifier (present and not zero) and the status
  is \<open>processing\<close>, closes what the reference still holds and makes a new connection;
  \<open>createProgressStream\<close> may throw, and then the status is set to \<open>failed\<close>. Whether
  it throws is the browser's, so the outcome is an argument.
\<close>

datatype EventSource_outcome = Connects | CannotConnect

definition effectCleanup :: "App \<Rightarrow> App" where
  "effectCleanup app = app\<lparr>eventSource := False\<rparr>"

definition sseEffect :: "EventSource_outcome \<Rightarrow> App \<Rightarrow> App" where
  "sseEffect outcome app =
     (case processingId (processingState app) of
        None \<Rightarrow> app
      | Some pid \<Rightarrow>
          if pid \<noteq> 0 \<and> status (processingState app) = ''processing''
          then (case outcome of
                  Connects \<Rightarrow> app\<lparr>eventSource := True\<rparr>
                | CannotConnect \<Rightarrow>
                    app\<lparr>processingState := (processingState app)
                           \<lparr>status := ''failed'', errorMessage := Some cannot_connect_text\<rparr>,
                        eventSource := False\<rparr>)
          else app)"

text \<open>
  A render: React shows the current state and then runs the effect when one of its
  dependencies differs from the last run, first the cleanup of the last run and then the
  body. With unchanged dependencies nothing happens.
\<close>

definition render :: "EventSource_outcome \<Rightarrow> App \<Rightarrow> App" where
  "render outcome app =
     (let deps = (processingId (processingState app), status (processingState app))
      in if deps = effectDeps app then app
         else (sseEffect outcome (effectCleanup app))\<lparr>effectDeps := deps\<rparr>)"

text \<open>
  What happens to the application while a job is streamed: the connection hands it a
  parsed message or a failure, or React renders. A closed \<open>EventSource\<close> dispatches
  nothing, so a message or a failure reaches its handler only while the connection is
  open. When React renders relative to the messages is not fixed: messages that were
  dispatched back to back are handled before the next render. A run is therefore any
  sequence of the three.
\<close>

datatype signal = Message SseData | Failure string | Rendered EventSource_outcome

fun deliver :: "App \<Rightarrow> signal \<Rightarrow> App" where
  "deliver app (Message data) = (if eventSource app then handleProgress app data else app)"
| "deliver app (Failure err) = (if eventSource app then handleError app err else app)"
| "deliver app (Rendered outcome) = render outcome app"

definition receive :: "App \<Rightarrow> signal list \<Rightarrow> App" where
  "receive app sigs = foldl deliver app sigs"

fun is_render :: "signal \<Rightarrow> bool" where
  "is_render (Rendered outcome) = True"
| "is_render _ = False"

text \<open>The progress values an observer sees: the value shown at each render of a run.\<close>

fun observed :: "App \<Rightarrow> signal list \<Rightarrow> int list" where
  "observed app [] = []"
| "observed app (s # sigs) =
     (if is_render s then [progress (processingState (deliver app s))] else [])
       @ observed (deliver app s) sigs"

text \<open>
  The progress values delivered, as a render picks them up: at each render the value of
  the last progress message before it, and the starting value when there was none.
\<close>

fun latest :: "int \<Rightarrow> signal list \<Rightarrow> int list" where
  "latest p [] = []"
| "latest p (Message (Progress d) # sigs) = latest (data_progress d) sigs"
| "latest p (Rendered outcome # sigs) = p # latest p sigs"
| "latest p (s # sigs) = latest p sigs"

text \<open>
  A signal that leaves the job processing: a progress message whose status is
  \<open>processing\<close>, a \<open>connected\<close> message, a message of an unknown type, or a render.
\<close>

fun calm :: "signal \<Rightarrow> bool" where
  "calm (Message (Progress d)) = (data_status d = ''processing'')"
| "calm (Message Connected) = True"
| "calm (Message Other) = True"
| "calm (Rendered outcome) = True"
| "calm _ = False"

text \<open>
  The connection is open and is the one the effect made for this job: the effect ran
  last for this processing identifier and the status \<open>processing\<close>.
\<close>

definition wired :: "App \<Rightarrow> bool" where
  "wired app =
     (eventSource app
      \<and> effectDeps app = (processingId (processingState app), ''processing''))"

text \<open>
  The application right after an upload was accepted (\<open>handleFileUpload\<close>): step
  \<open>upload\<close>, processing, progress 10, and the connection made by the effect for the
  processing identifier 1.
\<close>

definition uploading :: App where
  "uploading =
     \<lparr>processingState =
        \<lparr>processingId = Some 1, state_uploadId = Some 1, currentStep = ''upload'',
         status = ''processing'', progress = 10, message = None, errorMessage = None\<rparr>,
      eventSource = True, statsRequests = [], effectDeps = (Some 1, ''processing'')\<rparr>"

definition snapshot :: "string \<Rightarrow> string \<Rightarrow> int \<Rightarrow> ProgressData" where
  "snapshot step st n =
     \<lparr>upload_id = Some 1, current_step = step, data_status = st, data_progress = n,
      data_message = None, error_message = None\<rparr>"

section \<open>The broadcaster, from the specification\<close>

text \<open>
  Modelled from the spec: what happens to an open subscription (the server side of the
  stream is missing from the sources). It is a sequence of occurrences: a merge was
  applied to the job record (the occurrence carries the snapshot after it), or the
  inactivity window elapsed.
\<close>

datatype occurrence = Merged ProgressData | WindowElapsed

text \<open>
  Modelled from the spec: a job record is terminal when its status is \<open>completed\<close> or
  \<open>failed\<close> (the job store is missing from the sources).
\<close>

definition terminal :: "ProgressData \<Rightarrow> bool" where
  "terminal j = (data_status j = ''completed'' \<or> data_status j = ''failed'')"

text \<open>
  Modelled from the spec: the Progress Broadcaster's fan-out to one open subscription
  (the server's stream generator is missing from the sources). Every merge is delivered
  as a \<open>progress\<close> event carrying the snapshot; a failure is reported by an \<open>error\<close>
  event carrying the error detail; once the record has reached \<open>completed\<close> or
  \<open>failed\<close> a \<open>finished\<close> event is emitted and the stream ends; when the inactivity
  window elapses first, \<open>timeout\<close> is emitted and this subscription is closed.
\<close>

fun broadcast :: "occurrence list \<Rightarrow> SseData list" where
  "broadcast [] = []"
| "broadcast (WindowElapsed # occs) = [Timeout None]"
| "broadcast (Merged j # occs) =
     (if data_status j = ''failed''
      then [Progress j, Error (error_message j), Finished (data_status j)]
      else if data_status j = ''completed''
      then [Progress j, Finished (data_status j)]
      else Progress j # broadcast occs)"

text \<open>
  Modelled from the spec: opening a subscription on a job whose record is \<open>j0\<close> (the
  server's subscription endpoint is missing from the sources). \<open>connected\<close> is emitted
  at once; a job that is already terminal is answered by \<open>finished\<close> from the
  attach-time check, and no earlier event is replayed.
\<close>

definition subscribe :: "ProgressData \<Rightarrow> occurrence list \<Rightarrow> SseData list" where
  "subscribe j0 occs =
     Connected # (if terminal j0 then [Finished (data_status j0)] else broadcast occs)"

text \<open>
  Modelled from the spec: the job record reaches \<open>completed\<close> or \<open>failed\<close> while the
  subscription is still open, that is, before the inactivity window elapses.
\<close>

fun settles :: "occurrence list \<Rightarrow> bool" where
  "settles [] = False"
| "settles (WindowElapsed # occs) = False"
| "settles (Merged j # occs) = (terminal j \<or> settles occs)"

fun is_finished :: "SseData \<Rightarrow> bool" where
  "is_finished (Finished s) = True"
| "is_finished _ = False"

section \<open>Facts about the array methods\<close>

lemma findIndex_ge: "- 1 \<le> findIndex p xs"
  by (induction xs) (auto simp: Let_def)

lemma findIndex_none: "findIndex p xs = - 1 \<longleftrightarrow> (\<forall>x \<in> set xs. \<not> p x)"
proof (induction xs)
  case Nil
  then show ?case by simp
next
  case (Cons x xs)
  have "- 1 \<le> findIndex p xs" by (rule findIndex_ge)
  with Cons show ?case by (auto simp: Let_def)
qed

lemma findIndex_found:
  assumes "findIndex p xs \<noteq> - 1"
  shows "0 \<le> findIndex p xs \<and> nat (findIndex p xs) < length xs
         \<and> p (xs ! nat (findIndex p xs))"
  using assms
proof (induction xs)
  case Nil
  then show ?case by simp
next
  case (Cons x xs)
  show ?case
  proof (cases "p x")
    case True
    then show ?thesis by simp
  next
    case False
    with Cons.prems have ne: "findIndex p xs \<noteq> - 1"
      by (auto simp: Let_def split: if_splits)
    from Cons.IH [OF ne] have ih: "0 \<le> findIndex p xs"
      "nat (findIndex p xs) < length xs" "p (xs ! nat (findIndex p xs))"
      by auto
    from False ne have eq: "findIndex p (x # xs) = findIndex p xs + 1"
      by (simp add: Let_def)
    from ih(1) have "nat (findIndex p xs + 1) = Suc (nat (findIndex p xs))"
      by simp
    with eq ih show ?thesis by simp
  qed
qed

lemma findIndex_first:
  "findIndex p xs \<noteq> - 1 \<Longrightarrow> j < nat (findIndex p xs) \<Longrightarrow> \<not> p (xs ! j)"
proof (induction xs arbitrary: j)
  case Nil
  then show ?case by simp
next
  case (Cons x xs)
  show ?case
  proof (cases "p x")
    case True
    with Cons.prems show ?thesis by simp
  next
    case False
    with Cons.prems have ne: "findIndex p xs \<noteq> - 1"
      by (auto simp: Let_def split: if_splits)
    from False ne have eq: "findIndex p (x # xs) = findIndex p xs + 1"
      by (simp add: Let_def)
    from findIndex_found [OF ne] have "0 \<le> findIndex p xs" by simp
    then have n: "nat (findIndex p xs + 1) = Suc (nat (findIndex p xs))" by simp
    show ?thesis
    proof (cases j)
      case 0
      with False show ?thesis by simp
    next
      case (Suc k)
      with Cons.prems(2) eq n have "k < nat (findIndex p xs)" by simp
      from Cons.IH [OF ne this] Suc show ?thesis by simp
    qed
  qed
qed

lemma find_update_first:
  assumes "findIndex p xs \<noteq> - 1" and "p y"
  shows "find p (xs[nat (findIndex p xs) := y]) = Some y"
  using assms
proof (induction xs)
  case Nil
  then show ?case by simp
next
  case (Cons x xs)
  show ?case
  proof (cases "p x")
    case True
    with Cons.prems show ?thesis by simp
  next
    case False
    with Cons.prems have ne: "findIndex p xs \<noteq> - 1"
      by (auto simp: Let_def split: if_splits)
    from False ne have eq: "findIndex p (x # xs) = findIndex p xs + 1"
      by (simp add: Let_def)
    from findIndex_found [OF ne] have "0 \<le> findIndex p xs" by simp
    then have n: "nat (findIndex p xs + 1) = Suc (nat (findIndex p xs))" by simp
    from Cons.IH [OF ne Cons.prems(2)] False eq n show ?thesis by simp
  qed
qed

lemma slice_from_start:
  "0 \<le> n \<Longrightarrow> slice xs 0 n = take (nat n) xs"
  by (auto simp: slice_def Let_def min_def)

section \<open>Facts about the cache operations\<close>

lemma addReport_present:
  assumes "getCachedReports ls = JArr c"
    and "uploadId report \<in> uploadId ` set c"
  shows "addReport Stored ls report =
           Inr (Json (JArr (c[nat (findIndex (\<lambda>r. uploadId r = uploadId report) c) := report])))"
proof -
  from assms(2) have "findIndex (\<lambda>r. uploadId r = uploadId report) c \<noteq> - 1"
    by (auto simp: findIndex_none)
  with assms(1) show ?thesis
    by (simp add: addReport_def saveCachedReports_def Let_def)
qed

lemma addReport_absent:
  assumes "getCachedReports ls = JArr c"
    and "uploadId report \<notin> uploadId ` set c"
  shows "addReport Stored ls report = Inr (Json (JArr (take MAX_CACHE_SIZE (report # c))))"
proof -
  from assms(2) have "findIndex (\<lambda>r. uploadId r = uploadId report) c = - 1"
    unfolding findIndex_none by (metis image_eqI)
  with assms(1) show ?thesis
    by (auto simp: addReport_def saveCachedReports_def Let_def splice_def)
qed

lemma addReport_refused:
  "getCachedReports ls = JArr c \<Longrightarrow> addReport QuotaExceeded ls report = Inr ls"
  by (simp add: addReport_def saveCachedReports_def Let_def)

lemma addReport_refused_step:
  "(case addReport QuotaExceeded ls report of Inl e \<Rightarrow> ls | Inr ls' \<Rightarrow> ls') = ls"
  by (cases "getCachedReports ls")
     (simp_all add: addReport_def saveCachedReports_def Let_def)

lemma removeReport_refused:
  "getCachedReports ls = JArr c \<Longrightarrow> removeReport QuotaExceeded ls uid = Inr ls"
  by (simp add: removeReport_def saveCachedReports_def)

lemma addReports_all_refused:
  "addReports ls (map (\<lambda>r. (QuotaExceeded, r)) rs) = ls"
  by (induction rs) (simp_all add: addReport_refused_step)

section \<open>The claims about the history cache\<close>

text \<open>
  C2, as the claim states it, fails when the store refuses the write: \<open>setItem\<close> throws,
  \<open>saveCachedReports\<close> swallows the exception, \<open>addReport\<close> returns normally, and the
  entry of the job still carries the old summary statistics.
\<close>

theorem upsert_refused_write_counterexample:
  "addReport QuotaExceeded (Json (JArr [report_of 1 10, report_of 2 20])) (report_of 2 99)
     = Inr (Json (JArr [report_of 1 10, report_of 2 20]))
   \<and> getReport (Json (JArr [report_of 1 10, report_of 2 20])) 2 = Inr (Some (report_of 2 20))
   \<and> totalRows (stats (report_of 2 20)) = 20
   \<and> totalRows (stats (report_of 2 99)) = 99"
  by (simp add: addReport_def saveCachedReports_def getReport_def report_of_def)

text \<open>
  C2, amended. For every cache state and every report whose job identifier is already
  present, an upsert whose write the store accepts replaces that entry in place: the
  number of entries is unchanged, a lookup of the identifier afterwards gives the new
  report (so its new summary statistics), the new report stands at the position of the
  first entry with that identifier, and every other position is unchanged. An upsert
  whose write the store refuses returns normally and leaves the store as it was.
\<close>

theorem upsert_replaces_in_place:
  assumes "getCachedReports ls = JArr c"
    and "uploadId report \<in> uploadId ` set c"
  shows "(\<exists>c' i. addReport Stored ls report = Inr (Json (JArr c'))
           \<and> length c' = length c
           \<and> getReport (Json (JArr c')) (uploadId report) = Inr (Some report)
           \<and> i < length c \<and> uploadId (c ! i) = uploadId report \<and> c' ! i = report
           \<and> (\<forall>j < length c. j \<noteq> i \<longrightarrow> c' ! j = c ! j))
         \<and> addReport QuotaExceeded ls report = Inr ls"
proof -
  let ?p = "\<lambda>r. uploadId r = uploadId report"
  let ?i = "nat (findIndex ?p c)"
  let ?c' = "c[?i := report]"
  from assms(2) have ne: "findIndex ?p c \<noteq> - 1"
    by (auto simp: findIndex_none)
  from findIndex_found [OF ne] have i: "?i < length c" "uploadId (c ! ?i) = uploadId report"
    by auto
  have 1: "addReport Stored ls report = Inr (Json (JArr ?c'))"
    by (rule addReport_present [OF assms])
  have 2: "length ?c' = length c" by simp
  have 3: "getReport (Json (JArr ?c')) (uploadId report) = Inr (Some report)"
    using find_update_first [of ?p c report, OF ne] by (simp add: getReport_def)
  have 4: "?c' ! ?i = report" using i(1) by simp
  have 5: "\<forall>j < length c. j \<noteq> ?i \<longrightarrow> ?c' ! j = c ! j" by simp
  from 1 2 3 4 5 i have stored: "\<exists>c' i. addReport Stored ls report = Inr (Json (JArr c'))
           \<and> length c' = length c
           \<and> getReport (Json (JArr c')) (uploadId report) = Inr (Some report)
           \<and> i < length c \<and> uploadId (c ! i) = uploadId report \<and> c' ! i = report
           \<and> (\<forall>j < length c. j \<noteq> i \<longrightarrow> c' ! j = c ! j)"
    by blast
  from stored addReport_refused [OF assms(1)] show ?thesis by (intro conjI)
qed

theorem upsert_replaces_in_place_witness:
  "(\<exists>c' i. addReport Stored (Json (JArr [report_of 1 10, report_of 2 20])) (report_of 2 99)
             = Inr (Json (JArr c'))
     \<and> length c' = 2
     \<and> getReport (Json (JArr c')) 2 = Inr (Some (report_of 2 99))
     \<and> i < 2 \<and> c' ! i = report_of 2 99
     \<and> c' ! 0 = report_of 1 10)
   \<and> addReport QuotaExceeded (Json (JArr [report_of 1 10, report_of 2 20])) (report_of 2 99)
       = Inr (Json (JArr [report_of 1 10, report_of 2 20]))"
proof -
  let ?c = "[report_of 1 10, report_of 2 20]"
  have h1: "getCachedReports (Json (JArr ?c)) = JArr ?c"
    by simp
  have h2: "uploadId (report_of 2 99) \<in> uploadId ` set ?c"
    by (simp add: report_of_def)
  note inst = upsert_replaces_in_place [OF h1 h2]
  from inst
  obtain c' i where r: "addReport Stored (Json (JArr ?c)) (report_of 2 99)
        = Inr (Json (JArr c'))" "length c' = length ?c"
      "getReport (Json (JArr c')) (uploadId (report_of 2 99)) = Inr (Some (report_of 2 99))"
      "i < length ?c"
      "uploadId (?c ! i) = uploadId (report_of 2 99)"
      "c' ! i = report_of 2 99"
      "\<forall>j < length ?c. j \<noteq> i \<longrightarrow> c' ! j = ?c ! j"
    by blast
  from inst have refused: "addReport QuotaExceeded (Json (JArr ?c)) (report_of 2 99)
       = Inr (Json (JArr ?c))"
    by (rule conjunct2)
  from r(4,5) have "i = 1"
    by (cases i) (auto simp: report_of_def less_Suc_eq)
  with r(7) have z: "c' ! 0 = report_of 1 10" by simp
  have uid: "uploadId (report_of 2 99) = 2" by (simp add: report_of_def)
  from r(1,2,3,4,6) z uid have "\<exists>c' i. addReport Stored (Json (JArr ?c)) (report_of 2 99)
             = Inr (Json (JArr c'))
     \<and> length c' = 2
     \<and> getReport (Json (JArr c')) 2 = Inr (Some (report_of 2 99))
     \<and> i < 2 \<and> c' ! i = report_of 2 99
     \<and> c' ! 0 = report_of 1 10"
    by (intro exI [of _ c'] exI [of _ i]) simp
  with refused show ?thesis by (intro conjI)
qed

section \<open>Runs of upserts and the order of insertion\<close>

lemma addReport_ids:
  assumes "getCachedReports ls = JArr c"
  shows "\<exists>c'. addReport Stored ls r = Inr (Json (JArr c'))
           \<and> map uploadId c' =
               (if uploadId r \<in> set (map uploadId c) then map uploadId c
                else take MAX_CACHE_SIZE (uploadId r # map uploadId c))"
proof (cases "uploadId r \<in> uploadId ` set c")
  case True
  let ?i = "nat (findIndex (\<lambda>x. uploadId x = uploadId r) c)"
  from True have ne: "findIndex (\<lambda>x. uploadId x = uploadId r) c \<noteq> - 1"
    by (auto simp: findIndex_none)
  from findIndex_found [OF ne] have i: "?i < length c" "uploadId (c ! ?i) = uploadId r"
    by auto
  have "map uploadId (c[?i := r]) = (map uploadId c)[?i := uploadId r]"
    by (simp add: map_update)
  also have "\<dots> = map uploadId c"
    using i by (metis list_update_id nth_map)
  finally have "map uploadId (c[?i := r]) = map uploadId c" .
  with addReport_present [OF assms True] True show ?thesis by simp
next
  case False
  have "map uploadId (take MAX_CACHE_SIZE (r # c)) = take MAX_CACHE_SIZE (map uploadId (r # c))"
    by (simp only: take_map)
  then have "map uploadId (take MAX_CACHE_SIZE (r # c))
               = take MAX_CACHE_SIZE (uploadId r # map uploadId c)"
    by simp
  with addReport_absent [OF assms False] False show ?thesis by simp
qed

lemma take_Cons_take: "0 < n \<Longrightarrow> take n (x # take n xs) = take n (x # xs)"
  by (cases n) (simp_all add: min_def)

lemma accepted_Cons:
  "accepted ((outcome, r) # calls) =
     (case outcome of Stored \<Rightarrow> r # accepted calls | QuotaExceeded \<Rightarrow> accepted calls)"
  by (cases outcome) (simp_all add: accepted_def)

lemma addReports_log_general:
  assumes "getCachedReports ls = JArr c"
    and "map uploadId c = take MAX_CACHE_SIZE L"
  shows "\<exists>c'. getCachedReports (addReports ls calls) = JArr c'
           \<and> map uploadId c' =
               take MAX_CACHE_SIZE (insertion_log L (map uploadId (accepted calls)))"
  using assms
proof (induction calls arbitrary: ls c L)
  case Nil
  then show ?case by (simp add: accepted_def)
next
  case (Cons call calls)
  obtain outcome r where call: "call = (outcome, r)" by (cases call)
  show ?case
  proof (cases outcome)
    case QuotaExceeded
    from Cons.IH [OF Cons.prems] call QuotaExceeded show ?thesis
      by (simp add: addReport_refused_step accepted_Cons)
  next
    case Stored
    let ?L' = "if uploadId r \<in> set (take MAX_CACHE_SIZE L) then L else uploadId r # L"
    from addReport_ids [OF Cons.prems(1), of r] obtain c1 where
      c1: "addReport Stored ls r = Inr (Json (JArr c1))"
      "map uploadId c1 =
         (if uploadId r \<in> set (map uploadId c) then map uploadId c
          else take MAX_CACHE_SIZE (uploadId r # map uploadId c))"
      by blast
    have pos: "0 < MAX_CACHE_SIZE" by (simp add: MAX_CACHE_SIZE_def)
    have ids: "map uploadId c1 = take MAX_CACHE_SIZE ?L'"
      using c1(2) Cons.prems(2) take_Cons_take [OF pos] by auto
    have g: "getCachedReports (Json (JArr c1)) = JArr c1" by simp
    from Cons.IH [OF g ids] c1(1) call Stored show ?thesis
      by (simp add: accepted_Cons)
  qed
qed

lemma addReports_log:
  assumes "getCachedReports ls = JArr c" and "length c \<le> MAX_CACHE_SIZE"
  shows "\<exists>c'. getCachedReports (addReports ls calls) = JArr c'
           \<and> length c' \<le> MAX_CACHE_SIZE
           \<and> map uploadId c' =
               take MAX_CACHE_SIZE
                 (insertion_log (map uploadId c) (map uploadId (accepted calls)))"
proof -
  from assms(2) have "map uploadId c = take MAX_CACHE_SIZE (map uploadId c)" by simp
  from addReports_log_general [OF assms(1) this, of calls] obtain c' where
    c': "getCachedReports (addReports ls calls) = JArr c'"
    "map uploadId c' =
       take MAX_CACHE_SIZE (insertion_log (map uploadId c) (map uploadId (accepted calls)))"
    by blast
  from c'(2) have "length (map uploadId c') \<le> MAX_CACHE_SIZE"
    by simp
  then have "length c' \<le> MAX_CACHE_SIZE" by simp
  with c' show ?thesis by blast
qed

lemma set_insertion_log: "set (insertion_log L js) = set L \<union> set js"
proof (induction js arbitrary: L)
  case Nil
  then show ?case by simp
next
  case (Cons j js)
  have "j \<in> set (take MAX_CACHE_SIZE L) \<Longrightarrow> j \<in> set L"
    by (rule in_set_takeD)
  then show ?case by (auto simp: Cons.IH)
qed

lemma insertion_log_distinct:
  "distinct js \<Longrightarrow> set js \<inter> set L = {} \<Longrightarrow> insertion_log L js = rev js @ L"
proof (induction js arbitrary: L)
  case Nil
  then show ?case by simp
next
  case (Cons j js)
  from Cons.prems have nj: "j \<notin> set (take MAX_CACHE_SIZE L)"
    by (auto dest: in_set_takeD)
  from Cons.prems have "distinct js" "set js \<inter> set (j # L) = {}" by auto
  from Cons.IH [OF this] nj show ?case by simp
qed

lemma take_append_take: "take n (xs @ take n ys) = take n (xs @ ys)"
  by (simp add: min_def)

lemma addReports_distinct:
  assumes "getCachedReports ls = JArr c"
    and "length c \<le> MAX_CACHE_SIZE"
    and "distinct (map uploadId (accepted calls))"
    and "uploadId ` set (accepted calls) \<inter> uploadId ` set c = {}"
  shows "getCachedReports (addReports ls calls)
           = JArr (take MAX_CACHE_SIZE (rev (accepted calls) @ c))"
  using assms
proof (induction calls arbitrary: ls c)
  case Nil
  then show ?case by (simp add: accepted_def)
next
  case (Cons call calls)
  obtain outcome r where call: "call = (outcome, r)" by (cases call)
  show ?case
  proof (cases outcome)
    case QuotaExceeded
    with call Cons.prems have "distinct (map uploadId (accepted calls))"
      "uploadId ` set (accepted calls) \<inter> uploadId ` set c = {}"
      by (simp_all add: accepted_Cons)
    from Cons.IH [OF Cons.prems(1,2) this] call QuotaExceeded show ?thesis
      by (simp add: addReport_refused_step accepted_Cons)
  next
    case Stored
    with call have acc: "accepted (call # calls) = r # accepted calls"
      by (simp add: accepted_Cons)
    from Cons.prems(4) acc have absent: "uploadId r \<notin> uploadId ` set c" by auto
    let ?c1 = "take MAX_CACHE_SIZE (r # c)"
    have step: "addReport Stored ls r = Inr (Json (JArr ?c1))"
      by (rule addReport_absent [OF Cons.prems(1) absent])
    have g: "getCachedReports (Json (JArr ?c1)) = JArr ?c1" by simp
    have len: "length ?c1 \<le> MAX_CACHE_SIZE" by simp
    from Cons.prems(3) acc have d: "distinct (map uploadId (accepted calls))" by simp
    have "set ?c1 \<subseteq> set (r # c)" by (rule set_take_subset)
    then have "uploadId ` set ?c1 \<subseteq> insert (uploadId r) (uploadId ` set c)" by auto
    moreover from Cons.prems(3,4) acc have
      "uploadId ` set (accepted calls) \<inter> insert (uploadId r) (uploadId ` set c) = {}" by auto
    ultimately have disj: "uploadId ` set (accepted calls) \<inter> uploadId ` set ?c1 = {}" by blast
    from Cons.IH [OF g len d disj] step call Stored
    have "getCachedReports (addReports ls (call # calls))
            = JArr (take MAX_CACHE_SIZE (rev (accepted calls) @ take MAX_CACHE_SIZE (r # c)))"
      by simp
    then show ?thesis
      by (simp only: acc take_append_take rev.simps append_assoc append_Cons append_Nil)
  qed
qed

text \<open>
  C1, as the claim states it, fails when the store refuses the writes: 51 upserts of 51
  distinct job identifiers, each refused by \<open>setItem\<close>, all return normally and leave
  the cache empty.
\<close>

theorem cache_refused_writes_counterexample:
  "card (uploadId ` set (map (\<lambda>i. report_of (int i) 0) [0..<51])) = 51
   \<and> getCachedReports
       (addReports NoItem (map (\<lambda>r. (QuotaExceeded, r)) (map (\<lambda>i. report_of (int i) 0) [0..<51])))
     = JArr []"
proof -
  let ?rs = "map (\<lambda>i. report_of (int i) 0) [0..<51]"
  have ids: "map uploadId ?rs = map int [0..<51]"
    by (simp add: report_of_def comp_def)
  have "uploadId ` set ?rs = set (map uploadId ?rs)" by (simp only: set_map)
  also have "\<dots> = int ` {0..<51}" by (simp only: ids set_map set_upt)
  finally have "card (uploadId ` set ?rs) = card (int ` {0..<51})" by (simp only:)
  also have "\<dots> = 51" by (simp add: card_image)
  finally have a: "card (uploadId ` set ?rs) = 51" .
  have b: "getCachedReports (addReports NoItem (map (\<lambda>r. (QuotaExceeded, r)) ?rs)) = JArr []"
    by (simp only: addReports_all_refused getCachedReports.simps)
  from a b show ?thesis by (intro conjI)
qed

text \<open>
  C1, amended. Start from any store that reads as a cache of at most 50 entries (an
  absent, empty or unparseable item reads as the empty cache) and run any sequence of
  upserts in which the writes the store accepts name more than 50 distinct job
  identifiers. Afterwards the cache holds exactly 50 entries, and their identifiers are
  the 50 newest of the insertion order of the accepted writes. The same holds after every
  prefix of the run, with at most 50 entries: the cache never exceeds 50 entries, and
  what an insertion beyond capacity drops is the oldest identifier of the insertion
  order. When the run starts from the empty cache and the accepted writes carry each
  identifier once, the cache is the last 50 accepted reports, newest first. An upsert
  whose write the store refuses leaves the cache as it was.
\<close>

theorem cache_keeps_newest_fifty:
  assumes "getCachedReports ls = JArr c0"
    and "length c0 \<le> MAX_CACHE_SIZE"
    and "MAX_CACHE_SIZE < card (uploadId ` set (accepted calls))"
  shows "\<exists>c. getCachedReports (addReports ls calls) = JArr c
           \<and> length c = 50
           \<and> map uploadId c =
               take MAX_CACHE_SIZE
                 (insertion_log (map uploadId c0) (map uploadId (accepted calls)))
           \<and> (\<forall>k \<le> length calls. \<exists>ck.
                 getCachedReports (addReports ls (take k calls)) = JArr ck
                 \<and> length ck \<le> 50
                 \<and> map uploadId ck =
                     take MAX_CACHE_SIZE
                       (insertion_log (map uploadId c0)
                          (map uploadId (accepted (take k calls)))))
           \<and> (c0 = [] \<and> distinct (map uploadId (accepted calls))
                \<longrightarrow> c = take 50 (rev (accepted calls)))
           \<and> addReports ls (map (\<lambda>r. (QuotaExceeded, r)) rs) = ls"
proof -
  let ?log = "insertion_log (map uploadId c0) (map uploadId (accepted calls))"
  from addReports_log [OF assms(1,2), of calls] obtain c where
    c: "getCachedReports (addReports ls calls) = JArr c"
    "map uploadId c = take MAX_CACHE_SIZE ?log"
    by blast
  have "uploadId ` set (accepted calls) \<subseteq> set ?log"
    by (simp add: set_insertion_log)
  then have "card (uploadId ` set (accepted calls)) \<le> card (set ?log)"
    by (simp add: card_mono)
  also have "\<dots> \<le> length ?log" by (rule card_length)
  finally have "MAX_CACHE_SIZE < length ?log" using assms(3) by simp
  then have "length (take MAX_CACHE_SIZE ?log) = MAX_CACHE_SIZE" by simp
  with c(2) have "length (map uploadId c) = MAX_CACHE_SIZE" by simp
  then have len: "length c = 50" by (simp add: MAX_CACHE_SIZE_def)
  have prefixes: "\<forall>k \<le> length calls. \<exists>ck.
      getCachedReports (addReports ls (take k calls)) = JArr ck
      \<and> length ck \<le> 50
      \<and> map uploadId ck =
          take MAX_CACHE_SIZE
            (insertion_log (map uploadId c0) (map uploadId (accepted (take k calls))))"
    using addReports_log [OF assms(1,2)] by (simp add: MAX_CACHE_SIZE_def)
  have fresh: "c0 = [] \<and> distinct (map uploadId (accepted calls))
      \<longrightarrow> c = take 50 (rev (accepted calls))"
  proof
    assume a: "c0 = [] \<and> distinct (map uploadId (accepted calls))"
    then have "uploadId ` set (accepted calls) \<inter> uploadId ` set c0 = {}" by simp
    from addReports_distinct [OF assms(1,2) _ this] a
    have "getCachedReports (addReports ls calls)
            = JArr (take MAX_CACHE_SIZE (rev (accepted calls) @ c0))"
      by simp
    with c(1) a show "c = take 50 (rev (accepted calls))" by (simp add: MAX_CACHE_SIZE_def)
  qed
  have refused: "addReports ls (map (\<lambda>r. (QuotaExceeded, r)) rs) = ls"
    by (rule addReports_all_refused)
  from c len prefixes fresh refused show ?thesis by blast
qed

theorem cache_keeps_newest_fifty_witness:
  "\<exists>c. getCachedReports
          (addReports NoItem
             ((QuotaExceeded, report_of 99 0)
                # map (\<lambda>i. (Stored, report_of (int i) 0)) [0..<51])) = JArr c
     \<and> length c = 50
     \<and> c = take 50 (rev (map (\<lambda>i. report_of (int i) 0) [0..<51]))"
proof -
  let ?rs = "map (\<lambda>i. report_of (int i) 0) [0..<51]"
  let ?calls = "(QuotaExceeded, report_of 99 0) # map (\<lambda>i. (Stored, report_of (int i) 0)) [0..<51]"
  have acc: "accepted ?calls = ?rs"
    by (simp add: accepted_def comp_def)
  have ids: "map uploadId ?rs = map int [0..<51]"
    by (simp add: report_of_def comp_def)
  have h1: "getCachedReports NoItem = JArr []" by simp
  have h2: "length ([] :: CachedReport list) \<le> MAX_CACHE_SIZE" by simp
  have "uploadId ` set ?rs = set (map uploadId ?rs)" by (simp only: set_map)
  also have "\<dots> = int ` {0..<51}" by (simp only: ids set_map set_upt)
  finally have "card (uploadId ` set ?rs) = card (int ` {0..<51})" by (simp only:)
  also have "\<dots> = 51" by (simp add: card_image)
  finally have "MAX_CACHE_SIZE < card (uploadId ` set ?rs)"
    by (simp add: MAX_CACHE_SIZE_def)
  then have h3: "MAX_CACHE_SIZE < card (uploadId ` set (accepted ?calls))"
    by (simp only: acc)
  have d: "distinct (map uploadId (accepted ?calls))"
    by (simp only: acc ids) (simp add: distinct_map)
  from cache_keeps_newest_fifty [OF h1 h2 h3] d obtain c where
    c: "getCachedReports (addReports NoItem ?calls) = JArr c" "length c = 50"
    "c = take 50 (rev (accepted ?calls))"
    by blast
  from c(3) have "c = take 50 (rev ?rs)" by (simp only: acc)
  with c(1,2) show ?thesis by (intro exI [of _ c] conjI)
qed

text \<open>
  C6, as the claim states it, fails for a negative limit: \<open>slice(0, -1)\<close> drops the last
  entry and returns the rest, so a cache of two entries answers one entry to the
  limit \<open>-1\<close>.
\<close>

theorem recent_reports_negative_limit_counterexample:
  "getRecentReports (Json (JArr [report_of 1 0, report_of 2 0])) (Some (- 1))
     = Inr (JArr [report_of 1 0])
   \<and> \<not> int (length [report_of 1 0]) \<le> - 1"
  by (simp add: getRecentReports_def slice_def)

text \<open>
  C6, amended. For every cache state and every limit that is not negative, \<open>list(limit)\<close>
  returns the first \<open>limit\<close> entries of the cache in cache order, so at most \<open>limit\<close>
  of them, and the first ten when no limit is given. The cache order is newest insertion
  first: after any run of upserts on a cache of at most 50 entries, the identifiers
  returned are the first \<open>limit\<close> of the 50 newest of the insertion order of the writes
  the store accepted (an upsert whose write is refused inserts nothing).
\<close>

theorem recent_reports_newest_first_bounded:
  assumes "getCachedReports ls = JArr c" and "0 \<le> limit"
  shows "getRecentReports ls (Some limit) = Inr (JArr (take (nat limit) c))
         \<and> int (length (take (nat limit) c)) \<le> limit
         \<and> getRecentReports ls None = Inr (JArr (take 10 c))
         \<and> (length c \<le> MAX_CACHE_SIZE \<longrightarrow>
              (\<exists>ys. getRecentReports (addReports ls calls) (Some limit) = Inr (JArr ys)
                 \<and> int (length ys) \<le> limit
                 \<and> map uploadId ys =
                     take (nat limit) (take MAX_CACHE_SIZE
                       (insertion_log (map uploadId c) (map uploadId (accepted calls))))))"
proof -
  have take_limit: "getRecentReports s (Some limit) = Inr (JArr (take (nat limit) xs))"
    if "getCachedReports s = JArr xs" for s xs
    using that assms(2) by (simp add: getRecentReports_def slice_from_start)
  have 1: "getRecentReports ls (Some limit) = Inr (JArr (take (nat limit) c))"
    by (rule take_limit [OF assms(1)])
  have 2: "int (length (take (nat limit) c)) \<le> limit"
    using assms(2) by simp
  have 3: "getRecentReports ls None = Inr (JArr (take 10 c))"
    using assms(1) by (simp add: getRecentReports_def slice_from_start)
  have 4: "length c \<le> MAX_CACHE_SIZE \<longrightarrow>
              (\<exists>ys. getRecentReports (addReports ls calls) (Some limit) = Inr (JArr ys)
                 \<and> int (length ys) \<le> limit
                 \<and> map uploadId ys =
                     take (nat limit) (take MAX_CACHE_SIZE
                       (insertion_log (map uploadId c) (map uploadId (accepted calls)))))"
  proof
    assume "length c \<le> MAX_CACHE_SIZE"
    from addReports_log [OF assms(1) this, of calls] obtain c' where
      c': "getCachedReports (addReports ls calls) = JArr c'"
      "map uploadId c' =
         take MAX_CACHE_SIZE (insertion_log (map uploadId c) (map uploadId (accepted calls)))"
      by blast
    have a: "getRecentReports (addReports ls calls) (Some limit)
               = Inr (JArr (take (nat limit) c'))"
      by (rule take_limit [OF c'(1)])
    have b: "int (length (take (nat limit) c')) \<le> limit"
      using assms(2) by simp
    have "map uploadId (take (nat limit) c') = take (nat limit) (map uploadId c')"
      by (simp only: take_map)
    with c'(2) have c: "map uploadId (take (nat limit) c') =
        take (nat limit) (take MAX_CACHE_SIZE
          (insertion_log (map uploadId c) (map uploadId (accepted calls))))"
      by simp
    from a b c show "\<exists>ys. getRecentReports (addReports ls calls) (Some limit) = Inr (JArr ys)
                 \<and> int (length ys) \<le> limit
                 \<and> map uploadId ys =
                     take (nat limit) (take MAX_CACHE_SIZE
                       (insertion_log (map uploadId c) (map uploadId (accepted calls))))"
      by blast
  qed
  from 1 2 3 4 show ?thesis by blast
qed

theorem recent_reports_newest_first_bounded_witness:
  "getRecentReports (Json (JArr [report_of 3 0, report_of 2 0, report_of 1 0])) (Some 2)
     = Inr (JArr [report_of 3 0, report_of 2 0])
   \<and> getRecentReports (Json (JArr [report_of 3 0, report_of 2 0, report_of 1 0])) None
     = Inr (JArr [report_of 3 0, report_of 2 0, report_of 1 0])
   \<and> (\<exists>ys. getRecentReports
              (addReports (Json (JArr [report_of 3 0, report_of 2 0, report_of 1 0]))
                 [(Stored, report_of 4 0), (QuotaExceeded, report_of 6 0),
                  (Stored, report_of 2 7), (Stored, report_of 5 0)]) (Some 2) = Inr (JArr ys)
         \<and> map uploadId ys = [5, 4])"
proof -
  let ?c = "[report_of 3 0, report_of 2 0, report_of 1 0]"
  let ?calls = "[(Stored, report_of 4 0), (QuotaExceeded, report_of 6 0),
                  (Stored, report_of 2 7), (Stored, report_of 5 0)]"
  have h1: "getCachedReports (Json (JArr ?c)) = JArr ?c" by simp
  have h2: "(0::int) \<le> 2" by simp
  have h3: "length ?c \<le> MAX_CACHE_SIZE" by (simp add: MAX_CACHE_SIZE_def)
  have log: "take (nat 2) (take MAX_CACHE_SIZE
               (insertion_log (map uploadId ?c) (map uploadId (accepted ?calls)))) = [5, 4]"
    by (simp add: report_of_def MAX_CACHE_SIZE_def accepted_def)
  from recent_reports_newest_first_bounded [OF h1 h2, of ?calls]
  have a: "getRecentReports (Json (JArr ?c)) (Some 2) = Inr (JArr (take (nat 2) ?c))"
    and b: "getRecentReports (Json (JArr ?c)) None = Inr (JArr (take 10 ?c))"
    and c: "length ?c \<le> MAX_CACHE_SIZE \<longrightarrow>
              (\<exists>ys. getRecentReports (addReports (Json (JArr ?c)) ?calls) (Some 2) = Inr (JArr ys)
                 \<and> int (length ys) \<le> 2
                 \<and> map uploadId ys =
                     take (nat 2) (take MAX_CACHE_SIZE
                       (insertion_log (map uploadId ?c) (map uploadId (accepted ?calls)))))"
    by blast+
  from c h3 obtain ys where
    ys: "getRecentReports (addReports (Json (JArr ?c)) ?calls) (Some 2) = Inr (JArr ys)"
    "map uploadId ys =
       take (nat 2) (take MAX_CACHE_SIZE
         (insertion_log (map uploadId ?c) (map uploadId (accepted ?calls))))"
    by blast
  from ys(2) log have "map uploadId ys = [5, 4]" by (simp only:)
  with ys(1) have d: "\<exists>ys. getRecentReports (addReports (Json (JArr ?c)) ?calls) (Some 2)
      = Inr (JArr ys) \<and> map uploadId ys = [5, 4]"
    by (intro exI [of _ ys] conjI)
  from a have a': "getRecentReports (Json (JArr ?c)) (Some 2)
      = Inr (JArr [report_of 3 0, report_of 2 0])" by simp
  from b have b': "getRecentReports (Json (JArr ?c)) None = Inr (JArr ?c)" by simp
  from a' b' d show ?thesis by (intro conjI)
qed

text \<open>
  C8, as the claim states it, fails when the store refuses the write: \<open>setItem\<close> throws,
  the exception is swallowed, \<open>removeReport\<close> returns normally, and the entry of the
  job is still cached.
\<close>

theorem remove_refused_write_counterexample:
  "removeReport QuotaExceeded (Json (JArr [report_of 1 10, report_of 2 20])) 1
     = Inr (Json (JArr [report_of 1 10, report_of 2 20]))
   \<and> getReport (Json (JArr [report_of 1 10, report_of 2 20])) 1 = Inr (Some (report_of 1 10))"
  by (simp add: removeReport_def saveCachedReports_def getReport_def report_of_def)

text \<open>
  C8, amended. On every store that reads as a cache, a \<open>remove(jobId)\<close> whose write the
  store accepts leaves a store that reads as the old cache without the entries of that
  job: no entry with that identifier is left, every other entry is still there, unchanged
  and in the same relative order, and when no entry has the identifier the cache reads as
  before. A removal whose write the store refuses returns normally and leaves the store
  as it was.
\<close>

theorem remove_deletes_only_that_job:
  assumes "getCachedReports ls = JArr c"
  shows "(\<exists>ls' c'. removeReport Stored ls uid = Inr ls' \<and> getCachedReports ls' = JArr c'
           \<and> c' = filter (\<lambda>r. uploadId r \<noteq> uid) c
           \<and> set c' = set c - {r. uploadId r = uid}
           \<and> subseq c' c
           \<and> (uid \<notin> uploadId ` set c \<longrightarrow> c' = c))
         \<and> removeReport QuotaExceeded ls uid = Inr ls"
proof -
  let ?c' = "filter (\<lambda>r. uploadId r \<noteq> uid) c"
  have 1: "removeReport Stored ls uid = Inr (Json (JArr ?c'))"
    using assms by (simp add: removeReport_def saveCachedReports_def)
  have 2: "getCachedReports (Json (JArr ?c')) = JArr ?c'" by simp
  have 3: "set ?c' = set c - {r. uploadId r = uid}" by auto
  have 4: "subseq ?c' c" by simp
  have 5: "uid \<notin> uploadId ` set c \<longrightarrow> ?c' = c"
    by (auto simp: filter_id_conv)
  from 1 2 3 4 5 have "\<exists>ls' c'. removeReport Stored ls uid = Inr ls'
           \<and> getCachedReports ls' = JArr c'
           \<and> c' = filter (\<lambda>r. uploadId r \<noteq> uid) c
           \<and> set c' = set c - {r. uploadId r = uid}
           \<and> subseq c' c
           \<and> (uid \<notin> uploadId ` set c \<longrightarrow> c' = c)"
    by blast
  with removeReport_refused [OF assms] show ?thesis by (intro conjI)
qed

theorem remove_deletes_only_that_job_witness:
  "removeReport Stored (Json (JArr [report_of 1 10, report_of 2 20, report_of 1 30])) 1
     = Inr (Json (JArr [report_of 2 20]))
   \<and> removeReport Stored (Json (JArr [report_of 1 10, report_of 2 20, report_of 1 30])) 7
     = Inr (Json (JArr [report_of 1 10, report_of 2 20, report_of 1 30]))
   \<and> removeReport QuotaExceeded (Json (JArr [report_of 1 10, report_of 2 20, report_of 1 30])) 1
     = Inr (Json (JArr [report_of 1 10, report_of 2 20, report_of 1 30]))"
proof -
  let ?c = "[report_of 1 10, report_of 2 20, report_of 1 30]"
  have h: "getCachedReports (Json (JArr ?c)) = JArr ?c" by simp
  from remove_deletes_only_that_job [OF h, of 1]
  have third: "removeReport QuotaExceeded (Json (JArr ?c)) 1 = Inr (Json (JArr ?c))"
    by (rule conjunct2)
  have first: "removeReport Stored (Json (JArr ?c)) 1 = Inr (Json (JArr [report_of 2 20]))"
    by (simp add: removeReport_def saveCachedReports_def report_of_def)
  have second: "removeReport Stored (Json (JArr ?c)) 7 = Inr (Json (JArr ?c))"
    by (simp add: removeReport_def saveCachedReports_def report_of_def)
  from first second third show ?thesis by (intro conjI)
qed

text \<open>
  C10, as the claim states it, fails on a store whose item is well-formed JSON but not an
  array: the text \<open>null\<close> parses without an exception, \<open>getCachedReports\<close> hands \<open>null\<close>
  on, and \<open>getRecentReports\<close> and \<open>getReport\<close> throw a \<open>TypeError\<close> outside the
  \<open>try\<close> block; \<open>getReports\<close> returns \<open>null\<close>, which is no list.
\<close>

theorem reads_throw_on_stored_null_counterexample:
  "getRecentReports (Json JNull) None = Inl TypeError
   \<and> getReport (Json JNull) 1 = Inl TypeError
   \<and> getReports (Json JNull) = JNull"
  by (simp add: getRecentReports_def getReport_def getReports_def)

text \<open>
  C10, amended. On every store whose item is absent, empty, unparseable or an array of
  entries, no read throws: absent, empty and unparseable items read as the empty list,
  \<open>getReports\<close> and \<open>getRecentReports\<close> return a list of entries of the cache and
  \<open>getReport\<close> returns an entry or nothing.
\<close>

theorem reads_never_throw_on_lists:
  "getReports NoItem = JArr [] \<and> getReports EmptyText = JArr [] \<and> getReports Malformed = JArr []
   \<and> getRecentReports NoItem lim = Inr (JArr [])
   \<and> getRecentReports EmptyText lim = Inr (JArr [])
   \<and> getRecentReports Malformed lim = Inr (JArr [])
   \<and> getReport NoItem uid = Inr None \<and> getReport EmptyText uid = Inr None
   \<and> getReport Malformed uid = Inr None
   \<and> getReports (Json (JArr c)) = JArr c
   \<and> (\<exists>ys. getRecentReports (Json (JArr c)) lim = Inr (JArr ys) \<and> subseq ys c)
   \<and> getReport (Json (JArr c)) uid = Inr (find (\<lambda>r. uploadId r = uid) c)"
proof -
  have empty: "slice ([] :: CachedReport list) 0 n = []" for n
    by (simp add: slice_def Let_def)
  have sub: "subseq (slice c 0 n) c" for n
  proof -
    have "subseq (take k c) c" for k
      by (metis append_take_drop_id list_emb_prefix subseq_order.order_refl)
    then show ?thesis by (simp add: slice_def Let_def)
  qed
  show ?thesis
    using sub by (simp add: getReports_def getRecentReports_def getReport_def empty Let_def)
qed


section \<open>The claim about the step display\<close>

text \<open>
  C9. With status \<open>failed\<close> and the sentinel step \<open>error\<close>, the derived state of a
  step is \<open>error\<close> for the last step (\<open>report\<close>) and \<open>completed\<close> for every other one,
  whatever else the component shows: the step that was active at the failure is no input
  of the derivation. The five steps derive completed, completed, completed, completed,
  error.
\<close>

theorem global_error_marks_last_step:
  "getStepStatus ''error'' ''failed'' stepId
     = (if stepId = ''report'' then ''error'' else ''completed'')
   \<and> map (getStepStatus ''error'' ''failed'') steps
     = [''completed'', ''completed'', ''completed'', ''completed'', ''error'']"
proof -
  have ge: "- 1 \<le> findIndex (\<lambda>s. s = stepId) steps" by (rule findIndex_ge)
  have last: "findIndex (\<lambda>s. s = stepId) steps = 4 \<longleftrightarrow> stepId = ''report''"
    by (auto simp: steps_def Let_def)
  have le: "findIndex (\<lambda>s. s = stepId) steps \<le> 4"
    by (auto simp: steps_def Let_def)
  have one: "getStepStatus ''error'' ''failed'' stepId
     = (if stepId = ''report'' then ''error'' else ''completed'')"
  proof (cases "stepId = ''report''")
    case True
    with last have "findIndex (\<lambda>s. s = stepId) steps = 4" by simp
    with True show ?thesis
      by (simp add: getStepStatus_def Let_def steps_def)
  next
    case False
    with last le have "findIndex (\<lambda>s. s = stepId) steps < 4" by force
    moreover have "length steps = 5" by (simp add: steps_def)
    ultimately show ?thesis using False
      by (simp add: getStepStatus_def Let_def del: findIndex.simps)
  qed
  have all: "map (getStepStatus ''error'' ''failed'') steps
     = [''completed'', ''completed'', ''completed'', ''completed'', ''error'']"
    by (simp add: steps_def getStepStatus_def Let_def)
  from one all show ?thesis by simp
qed

section \<open>The claim about the upload form\<close>

lemma form_step_csv_only:
  assumes "\<forall>f \<in> set (uploads st). file_type f = ''text/csv'' \<or> endsWith (file_name f) ''.csv''"
    and "\<forall>f. selectedFile st = Some f \<longrightarrow>
           file_type f = ''text/csv'' \<or> endsWith (file_name f) ''.csv''"
  shows "(\<forall>f \<in> set (uploads (form_step st ev)).
            file_type f = ''text/csv'' \<or> endsWith (file_name f) ''.csv'')
         \<and> (\<forall>f. selectedFile (form_step st ev) = Some f \<longrightarrow>
               file_type f = ''text/csv'' \<or> endsWith (file_name f) ''.csv'')"
proof (cases ev)
  case (Drop files)
  with assms show ?thesis
    by (cases files) (auto simp: onDrop_def)
next
  case ConfirmUpload
  with assms show ?thesis
    by (cases "selectedFile st") (auto simp: handleConfirmUpload_def)
next
  case CancelUpload
  with assms show ?thesis
    by (auto simp: handleCancelUpload_def)
qed

lemma form_run_csv_only:
  assumes "\<forall>f \<in> set (uploads st). file_type f = ''text/csv'' \<or> endsWith (file_name f) ''.csv''"
    and "\<forall>f. selectedFile st = Some f \<longrightarrow>
           file_type f = ''text/csv'' \<or> endsWith (file_name f) ''.csv''"
  shows "\<forall>f \<in> set (uploads (form_run st evs)).
           file_type f = ''text/csv'' \<or> endsWith (file_name f) ''.csv''"
  using assms unfolding form_run_def
proof (induction evs arbitrary: st)
  case Nil
  then show ?case by simp
next
  case (Cons ev evs)
  from form_step_csv_only [OF Cons.prems, of ev]
  have a: "\<forall>f \<in> set (uploads (form_step st ev)).
            file_type f = ''text/csv'' \<or> endsWith (file_name f) ''.csv''"
    and b: "\<forall>f. selectedFile (form_step st ev) = Some f \<longrightarrow>
               file_type f = ''text/csv'' \<or> endsWith (file_name f) ''.csv''"
    by blast+
  from Cons.IH [OF a b] show ?case by simp
qed

text \<open>
  C7. A dropped file that is not CSV (its MIME type is not \<open>text/csv\<close> and its name does
  not end in \<open>.csv\<close>) is rejected where it is dropped: the form shows the alert and
  changes nothing else, so the file is not selected and nothing is uploaded. Whatever the
  user does with the form from the moment it is mounted, such a file is never passed to
  the upload operation, so no job is ever created for it.
\<close>

theorem wrong_type_never_uploaded:
  assumes "\<not> (file_type file = ''text/csv'' \<or> endsWith (file_name file) ''.csv'')"
  shows "onDrop st (file # others) = st\<lparr>alerts := alerts st @ [csv_alert]\<rparr>
         \<and> uploads (onDrop st (file # others)) = uploads st
         \<and> selectedFile (onDrop st (file # others)) = selectedFile st
         \<and> file \<notin> set (uploads (form_run mounted evs))"
proof -
  from assms have 1: "onDrop st (file # others) = st\<lparr>alerts := alerts st @ [csv_alert]\<rparr>"
    by (simp add: onDrop_def)
  have "\<forall>f \<in> set (uploads (form_run mounted evs)).
           file_type f = ''text/csv'' \<or> endsWith (file_name f) ''.csv''"
    by (rule form_run_csv_only) (simp_all add: mounted_def)
  with assms have 2: "file \<notin> set (uploads (form_run mounted evs))" by blast
  from 1 2 show ?thesis by simp
qed

theorem wrong_type_never_uploaded_witness:
  "onDrop mounted [\<lparr>file_name = ''notes.txt'', file_type = ''text/plain'', file_size = 3\<rparr>]
     = mounted\<lparr>alerts := [csv_alert]\<rparr>
   \<and> \<lparr>file_name = ''notes.txt'', file_type = ''text/plain'', file_size = 3\<rparr>
       \<notin> set (uploads (form_run mounted
             [Drop [\<lparr>file_name = ''data.csv'', file_type = ''text/csv'', file_size = 9\<rparr>],
              Drop [\<lparr>file_name = ''notes.txt'', file_type = ''text/plain'', file_size = 3\<rparr>],
              ConfirmUpload]))
   \<and> uploads (form_run mounted
             [Drop [\<lparr>file_name = ''data.csv'', file_type = ''text/csv'', file_size = 9\<rparr>],
              Drop [\<lparr>file_name = ''notes.txt'', file_type = ''text/plain'', file_size = 3\<rparr>],
              ConfirmUpload])
       = [\<lparr>file_name = ''data.csv'', file_type = ''text/csv'', file_size = 9\<rparr>]"
proof -
  let ?txt = "\<lparr>file_name = ''notes.txt'', file_type = ''text/plain'', file_size = 3\<rparr>"
  let ?csv = "\<lparr>file_name = ''data.csv'', file_type = ''text/csv'', file_size = 9\<rparr>"
  have h: "\<not> (file_type ?txt = ''text/csv'' \<or> endsWith (file_name ?txt) ''.csv'')"
    by (simp add: endsWith_def)
  from wrong_type_never_uploaded [OF h, of mounted "[]" "[Drop [?csv], Drop [?txt], ConfirmUpload]"]
  have a: "onDrop mounted [?txt] = mounted\<lparr>alerts := alerts mounted @ [csv_alert]\<rparr>"
    and b: "?txt \<notin> set (uploads (form_run mounted [Drop [?csv], Drop [?txt], ConfirmUpload]))"
    by blast+
  have c: "uploads (form_run mounted [Drop [?csv], Drop [?txt], ConfirmUpload]) = [?csv]"
    by (simp add: form_run_def onDrop_def handleConfirmUpload_def mounted_def endsWith_def)
  from a have a': "onDrop mounted [?txt] = mounted\<lparr>alerts := [csv_alert]\<rparr>"
    by (simp add: mounted_def)
  from a' b c show ?thesis by (intro conjI)
qed


section \<open>The claims about the progress stream\<close>

lemma closed_unchanged: "\<not> eventSource app \<Longrightarrow> app\<lparr>eventSource := False\<rparr> = app"
  by (cases app) simp

lemma receive_closed:
  "\<not> eventSource app \<Longrightarrow> receive app (filter (\<lambda>s. \<not> is_render s) sigs) = app"
  unfolding receive_def
proof (induction sigs)
  case Nil
  then show ?case by simp
next
  case (Cons s sigs)
  from Cons.prems have "\<not> is_render s \<Longrightarrow> deliver app s = app" by (cases s) simp_all
  with Cons show ?case by simp
qed

lemma render_settled:
  assumes "\<not> eventSource app"
    and "status (processingState app) \<noteq> ''processing''
         \<or> effectDeps app = (processingId (processingState app), status (processingState app))"
  shows "render outcome app =
           app\<lparr>effectDeps := (processingId (processingState app), status (processingState app))\<rparr>"
proof (cases "effectDeps app = (processingId (processingState app), status (processingState app))")
  case True
  then have "render outcome app = app" by (simp add: render_def)
  moreover from True have
    "app\<lparr>effectDeps := (processingId (processingState app), status (processingState app))\<rparr> = app"
    by (cases app) simp
  ultimately show ?thesis by simp
next
  case False
  with assms(2) have np: "status (processingState app) \<noteq> ''processing''" by blast
  then have "sseEffect outcome (effectCleanup app) = effectCleanup app"
    by (simp add: sseEffect_def effectCleanup_def split: option.splits)
  also have "\<dots> = app"
    using assms(1) by (simp add: effectCleanup_def closed_unchanged)
  finally have "sseEffect outcome (effectCleanup app) = app" .
  with False show ?thesis by (simp add: render_def Let_def)
qed

lemma receive_settled:
  assumes "\<not> eventSource app"
    and "status (processingState app) \<noteq> ''processing''
         \<or> effectDeps app = (processingId (processingState app), status (processingState app))"
  shows "\<exists>deps. receive app sigs = app\<lparr>effectDeps := deps\<rparr>"
  using assms unfolding receive_def
proof (induction sigs arbitrary: app)
  case Nil
  have "app\<lparr>effectDeps := effectDeps app\<rparr> = app" by (cases app) simp
  then show ?case by (metis foldl_Nil)
next
  case (Cons s sigs)
  let ?deps = "(processingId (processingState app), status (processingState app))"
  show ?case
  proof (cases "is_render s")
    case False
    with Cons.prems(1) have "deliver app s = app" by (cases s) simp_all
    with Cons.IH [OF Cons.prems] show ?thesis by simp
  next
    case True
    then obtain outcome where s: "s = Rendered outcome" by (cases s) simp_all
    from render_settled [OF Cons.prems, of outcome] s
    have step: "deliver app s = app\<lparr>effectDeps := ?deps\<rparr>" by simp
    let ?app1 = "app\<lparr>effectDeps := ?deps\<rparr>"
    from Cons.prems(1) have c1: "\<not> eventSource ?app1" by simp
    have c2: "status (processingState ?app1) \<noteq> ''processing''
         \<or> effectDeps ?app1 = (processingId (processingState ?app1), status (processingState ?app1))"
      by simp
    from Cons.IH [OF c1 c2] obtain deps where
      "foldl deliver ?app1 sigs = ?app1\<lparr>effectDeps := deps\<rparr>" by blast
    then have "foldl deliver ?app1 sigs = app\<lparr>effectDeps := deps\<rparr>" by simp
    with step show ?thesis by (intro exI [of _ deps]) simp
  qed
qed

lemma progress_keeps_connection:
  "eventSource (handleProgress app (Progress d)) = eventSource app"
  by (simp add: handleProgress_def Let_def split: option.splits)

lemma progress_shown:
  "progress (processingState (handleProgress app (Progress d))) = data_progress d"
  by (simp add: handleProgress_def Let_def split: option.splits)

lemma progress_keeps_wiring:
  "wired app \<Longrightarrow> wired (handleProgress app (Progress d))"
  by (simp add: wired_def handleProgress_def Let_def split: option.splits)

lemma progress_status:
  "status (processingState (handleProgress app (Progress d))) = data_status d"
  by (simp add: handleProgress_def Let_def split: option.splits)

lemma render_steady:
  "wired app \<Longrightarrow> status (processingState app) = ''processing'' \<Longrightarrow> render outcome app = app"
  by (simp add: wired_def render_def)

lemma render_closes:
  assumes "wired app" and "status (processingState app) \<noteq> ''processing''"
  shows "render outcome app =
           app\<lparr>eventSource := False,
               effectDeps := (processingId (processingState app), status (processingState app))\<rparr>"
proof -
  from assms have "effectDeps app \<noteq> (processingId (processingState app), status (processingState app))"
    by (auto simp: wired_def)
  moreover from assms(2) have "sseEffect outcome (effectCleanup app) = effectCleanup app"
    by (simp add: sseEffect_def effectCleanup_def split: option.splits)
  ultimately show ?thesis by (simp add: render_def Let_def effectCleanup_def)
qed

lemma observed_calm:
  "wired app \<Longrightarrow> status (processingState app) = ''processing'' \<Longrightarrow> list_all calm sigs
   \<Longrightarrow> observed app sigs = latest (progress (processingState app)) sigs"
proof (induction sigs arbitrary: app)
  case Nil
  then show ?case by simp
next
  case (Cons s sigs)
  from Cons.prems(1) have conn: "eventSource app" by (simp add: wired_def)
  from Cons.prems(3) have cs: "calm s" and rest: "list_all calm sigs" by simp_all
  show ?case
  proof (cases s)
    case (Rendered outcome)
    from render_steady [OF Cons.prems(1,2), of outcome] Rendered
    have "deliver app s = app" by simp
    with Cons.IH [OF Cons.prems(1,2) rest] Rendered show ?thesis by simp
  next
    case (Failure err)
    with cs show ?thesis by simp
  next
    case (Message data)
    show ?thesis
    proof (cases data)
      case (Progress d)
      with Message cs have pd: "data_status d = ''processing''" by simp
      from conn Message Progress have step: "deliver app s = handleProgress app (Progress d)"
        by simp
      have w: "wired (handleProgress app (Progress d))"
        by (rule progress_keeps_wiring [OF Cons.prems(1)])
      have st: "status (processingState (handleProgress app (Progress d))) = ''processing''"
        by (simp add: progress_status pd)
      from Cons.IH [OF w st rest] step Message Progress show ?thesis
        by (simp add: progress_shown)
    next
      case Connected
      with conn Message have "deliver app s = app" by (simp add: handleProgress_def)
      with Cons.IH [OF Cons.prems(1,2) rest] Message Connected show ?thesis by simp
    next
      case Other
      with conn Message have "deliver app s = app" by (simp add: handleProgress_def)
      with Cons.IH [OF Cons.prems(1,2) rest] Message Other show ?thesis by simp
    next
      case (Finished x)
      with Message cs show ?thesis by simp
    next
      case (Error x)
      with Message cs show ?thesis by simp
    next
      case (Timeout x)
      with Message cs show ?thesis by simp
    qed
  qed
qed

text \<open>
  C3, as the claim states it, fails for the status: the handler answers a timeout by
  setting the status of the job it shows to \<open>failed\<close>.
\<close>

theorem timeout_fails_status_counterexample:
  "status (processingState uploading) = ''processing''
   \<and> status (processingState (receive uploading [Message (Timeout None)])) = ''failed''"
  by (simp add: receive_def uploading_def handleProgress_def)

text \<open>
  C3, amended. A timeout event closes the subscription channel, so that no later signal
  is handled: whatever follows, messages, failures or renders, changes nothing but the
  effect's record of its dependencies. It leaves the stage and the progress of the job
  as they were shown, its identifiers too, and sends no request; but it sets the status
  shown to \<open>failed\<close> and the error message to the message of the timeout (to a default
  text when the event has none).
\<close>

theorem timeout_closes_channel_keeps_stage_and_progress:
  "\<not> eventSource (handleProgress app (Timeout m))
   \<and> receive (handleProgress app (Timeout m)) (filter (\<lambda>s. \<not> is_render s) sigs)
       = handleProgress app (Timeout m)
   \<and> (\<exists>deps. receive (handleProgress app (Timeout m)) sigs
                = (handleProgress app (Timeout m))\<lparr>effectDeps := deps\<rparr>)
   \<and> currentStep (processingState (handleProgress app (Timeout m)))
       = currentStep (processingState app)
   \<and> progress (processingState (handleProgress app (Timeout m)))
       = progress (processingState app)
   \<and> processingId (processingState (handleProgress app (Timeout m)))
       = processingId (processingState app)
   \<and> state_uploadId (processingState (handleProgress app (Timeout m)))
       = state_uploadId (processingState app)
   \<and> statsRequests (handleProgress app (Timeout m)) = statsRequests app
   \<and> status (processingState (handleProgress app (Timeout m))) = ''failed''
   \<and> errorMessage (processingState (handleProgress app (Timeout m)))
       = Some (case m of None \<Rightarrow> sse_timeout_text
               | Some t \<Rightarrow> if t = [] then sse_timeout_text else t)"
proof -
  let ?X = "handleProgress app (Timeout m)"
  have closed: "\<not> eventSource ?X"
    by (simp add: handleProgress_def)
  have failed: "status (processingState ?X) \<noteq> ''processing''
      \<or> effectDeps ?X = (processingId (processingState ?X), status (processingState ?X))"
    by (simp add: handleProgress_def)
  have 1: "receive ?X (filter (\<lambda>s. \<not> is_render s) sigs) = ?X"
    by (rule receive_closed [OF closed])
  have 2: "\<exists>deps. receive ?X sigs = ?X\<lparr>effectDeps := deps\<rparr>"
    by (rule receive_settled [OF closed failed])
  have 3: "currentStep (processingState ?X) = currentStep (processingState app)
     \<and> progress (processingState ?X) = progress (processingState app)
     \<and> processingId (processingState ?X) = processingId (processingState app)
     \<and> state_uploadId (processingState ?X) = state_uploadId (processingState app)
     \<and> statsRequests ?X = statsRequests app
     \<and> status (processingState ?X) = ''failed''
     \<and> errorMessage (processingState ?X)
         = Some (case m of None \<Rightarrow> sse_timeout_text
                 | Some t \<Rightarrow> if t = [] then sse_timeout_text else t)"
    by (simp add: handleProgress_def)
  from closed 1 2 3 show ?thesis by (intro conjI) simp_all
qed

text \<open>
  C4, as the claim states it, fails on both counts. The handler copies what a progress
  event carries: a job shown at 50 percent is shown at 30 when the next event says so,
  its status still \<open>processing\<close>, whenever React renders. And when a progress message
  that completes the job at 100 percent and a further progress message are handled back
  to back, before React has rendered, the second one is applied: the job that was
  completed is processing at 0, the connection stays open because the effect sees the
  status it ran for, and that is what the next render shows.
\<close>

theorem progress_reset_counterexample:
  "observed uploading
     [Message (Progress (snapshot ''clean'' ''processing'' 50)), Rendered Connects,
      Message (Progress (snapshot ''clean'' ''processing'' 30)), Rendered Connects] = [50, 30]
   \<and> status (processingState (receive uploading
        [Message (Progress (snapshot ''clean'' ''processing'' 50)), Rendered Connects,
         Message (Progress (snapshot ''clean'' ''processing'' 30)), Rendered Connects]))
       = ''processing''
   \<and> status (processingState (receive uploading
        [Message (Progress (snapshot ''completed'' ''completed'' 100))])) = ''completed''
   \<and> status (processingState (receive uploading
        [Message (Progress (snapshot ''completed'' ''completed'' 100)),
         Message (Progress (snapshot ''upload'' ''processing'' 0)), Rendered Connects]))
       = ''processing''
   \<and> observed uploading
        [Message (Progress (snapshot ''completed'' ''completed'' 100)),
         Message (Progress (snapshot ''upload'' ''processing'' 0)), Rendered Connects] = [0]
   \<and> eventSource (receive uploading
        [Message (Progress (snapshot ''completed'' ''completed'' 100)),
         Message (Progress (snapshot ''upload'' ''processing'' 0)), Rendered Connects])"
  by (simp add: receive_def uploading_def snapshot_def handleProgress_def render_def)

text \<open>
  C4, amended. Every progress event that is handled overwrites the stage, the status and
  the progress shown with the values it carries and leaves the connection as it is. While
  the job stays \<open>processing\<close> every progress event is handled, whenever React renders,
  so the progress values observed are the values delivered (at each render the last one
  delivered), and they are non-decreasing only when the delivered values are: no reset
  is refused. A finished, error or timeout event and a connection failure close the
  connection at once, and the first render after the status has left \<open>processing\<close>
  (so after \<open>completed\<close> or \<open>failed\<close>) closes it too and changes nothing else. From
  then on no further signal changes stage, status or progress. A progress event that is
  handled before that render is still applied.
\<close>

theorem observer_copies_progress_until_closed:
  "currentStep (processingState (handleProgress app (Progress d))) = current_step d
   \<and> status (processingState (handleProgress app (Progress d))) = data_status d
   \<and> progress (processingState (handleProgress app (Progress d))) = data_progress d
   \<and> eventSource (handleProgress app (Progress d)) = eventSource app
   \<and> (wired app \<and> status (processingState app) = ''processing'' \<and> list_all calm sigs \<longrightarrow>
        observed app sigs = latest (progress (processingState app)) sigs)
   \<and> \<not> eventSource (handleProgress app (Finished s))
   \<and> \<not> eventSource (handleProgress app (Error m))
   \<and> \<not> eventSource (handleProgress app (Timeout m))
   \<and> \<not> eventSource (handleError app err)
   \<and> (wired app \<and> status (processingState app) \<noteq> ''processing'' \<longrightarrow>
        \<not> eventSource (render outcome app)
        \<and> processingState (render outcome app) = processingState app
        \<and> statsRequests (render outcome app) = statsRequests app
        \<and> (\<exists>deps. receive (render outcome app) sigs = (render outcome app)\<lparr>effectDeps := deps\<rparr>))
   \<and> (\<not> eventSource app
        \<and> (status (processingState app) \<noteq> ''processing''
            \<or> effectDeps app = (processingId (processingState app), status (processingState app)))
        \<longrightarrow> (\<exists>deps. receive app sigs = app\<lparr>effectDeps := deps\<rparr>))"
proof -
  have 1: "currentStep (processingState (handleProgress app (Progress d))) = current_step d"
    by (simp add: handleProgress_def Let_def split: option.splits)
  have 2: "wired app \<and> status (processingState app) = ''processing'' \<and> list_all calm sigs \<longrightarrow>
        observed app sigs = latest (progress (processingState app)) sigs"
    by (simp add: observed_calm)
  have 3: "\<not> eventSource (handleProgress app (Finished s))"
    "\<not> eventSource (handleProgress app (Error m))"
    "\<not> eventSource (handleProgress app (Timeout m))"
    "\<not> eventSource (handleError app err)"
    by (simp_all add: handleProgress_def handleError_def)
  have 4: "wired app \<and> status (processingState app) \<noteq> ''processing'' \<longrightarrow>
        \<not> eventSource (render outcome app)
        \<and> processingState (render outcome app) = processingState app
        \<and> statsRequests (render outcome app) = statsRequests app
        \<and> (\<exists>deps. receive (render outcome app) sigs = (render outcome app)\<lparr>effectDeps := deps\<rparr>)"
  proof
    assume a: "wired app \<and> status (processingState app) \<noteq> ''processing''"
    then have w: "wired app" and np: "status (processingState app) \<noteq> ''processing''"
      by simp_all
    let ?R = "render outcome app"
    have r: "?R = app\<lparr>eventSource := False,
               effectDeps := (processingId (processingState app), status (processingState app))\<rparr>"
      by (rule render_closes [OF w np])
    then have closed: "\<not> eventSource ?R" and same: "processingState ?R = processingState app"
      and reqs: "statsRequests ?R = statsRequests app"
      by simp_all
    from same np have settled: "status (processingState ?R) \<noteq> ''processing''
        \<or> effectDeps ?R = (processingId (processingState ?R), status (processingState ?R))"
      by simp
    from receive_settled [OF closed settled]
    have "\<exists>deps. receive ?R sigs = ?R\<lparr>effectDeps := deps\<rparr>" .
    with closed same reqs show "\<not> eventSource ?R
        \<and> processingState ?R = processingState app
        \<and> statsRequests ?R = statsRequests app
        \<and> (\<exists>deps. receive ?R sigs = ?R\<lparr>effectDeps := deps\<rparr>)"
      by (intro conjI)
  qed
  have 5: "\<not> eventSource app
        \<and> (status (processingState app) \<noteq> ''processing''
            \<or> effectDeps app = (processingId (processingState app), status (processingState app)))
        \<longrightarrow> (\<exists>deps. receive app sigs = app\<lparr>effectDeps := deps\<rparr>)"
    using receive_settled [of app sigs] by blast
  from 1 progress_status [of app d] progress_shown [of app d]
    progress_keeps_connection [of app d] 2 3 4 5
  show ?thesis by (intro conjI)
qed

theorem observer_copies_progress_until_closed_witness:
  "observed uploading
     [Message (Progress (snapshot ''clean'' ''processing'' 30)), Rendered Connects,
      Message (Progress (snapshot ''dedupe'' ''processing'' 50)), Rendered Connects] = [30, 50]
   \<and> (\<exists>deps. receive
         (render Connects (handleProgress uploading (Progress (snapshot ''completed'' ''completed'' 100))))
         [Message (Progress (snapshot ''upload'' ''processing'' 0)), Rendered Connects]
       = (render Connects (handleProgress uploading (Progress (snapshot ''completed'' ''completed'' 100))))
           \<lparr>effectDeps := deps\<rparr>)
   \<and> status (processingState
        (render Connects (handleProgress uploading (Progress (snapshot ''completed'' ''completed'' 100)))))
       = ''completed''"
proof -
  let ?sigs = "[Message (Progress (snapshot ''clean'' ''processing'' 30)), Rendered Connects,
      Message (Progress (snapshot ''dedupe'' ''processing'' 50)), Rendered Connects]"
  let ?done = "handleProgress uploading (Progress (snapshot ''completed'' ''completed'' 100))"
  let ?more = "[Message (Progress (snapshot ''upload'' ''processing'' 0)), Rendered Connects]"
  have w: "wired uploading" by (simp add: wired_def uploading_def)
  have p: "status (processingState uploading) = ''processing''" by (simp add: uploading_def)
  have c: "list_all calm ?sigs" by (simp add: snapshot_def)
  from observer_copies_progress_until_closed [of uploading _ ?sigs] w p c
  have "observed uploading ?sigs = latest (progress (processingState uploading)) ?sigs"
    by blast
  then have a: "observed uploading ?sigs = [30, 50]"
    by (simp add: snapshot_def)
  have w2: "wired ?done"
    by (rule progress_keeps_wiring [OF w])
  have st: "status (processingState ?done) = ''completed''"
    by (simp add: progress_status snapshot_def)
  then have np: "status (processingState ?done) \<noteq> ''processing''" by simp
  from observer_copies_progress_until_closed [of ?done _ ?more _ _ _ Connects] w2 np
  have b: "\<exists>deps. receive (render Connects ?done) ?more = (render Connects ?done)\<lparr>effectDeps := deps\<rparr>"
    and same: "processingState (render Connects ?done) = processingState ?done"
    by blast+
  from same st have c2: "status (processingState (render Connects ?done)) = ''completed''"
    by simp
  from a b c2 show ?thesis by (intro conjI)
qed

lemma broadcast_count:
  "length (filter is_finished (broadcast occs)) = (if settles occs then 1 else 0)"
  by (induction occs rule: broadcast.induct) (auto simp: terminal_def)

lemma broadcast_last:
  "settles occs \<Longrightarrow> is_finished (last (broadcast occs))"
proof (induction occs rule: broadcast.induct)
  case 1
  then show ?case by simp
next
  case (2 occs)
  then show ?case by simp
next
  case (3 j occs)
  show ?case
  proof (cases "terminal j")
    case True
    then show ?thesis by (auto simp: terminal_def)
  next
    case False
    with "3.prems" have s: "settles occs" by simp
    from False have nt: "data_status j \<noteq> ''failed''" "data_status j \<noteq> ''completed''"
      by (auto simp: terminal_def)
    from "3.IH" [OF nt s] have f: "is_finished (last (broadcast occs))" .
    have "broadcast occs \<noteq> []"
      using s by (cases occs rule: broadcast.cases) auto
    with f nt show ?thesis by simp
  qed
qed

lemma broadcast_nothing_after:
  "i < length (broadcast occs) \<Longrightarrow> is_finished (broadcast occs ! i)
   \<Longrightarrow> Suc i = length (broadcast occs)"
proof (induction occs arbitrary: i rule: broadcast.induct)
  case 1
  then show ?case by simp
next
  case (2 occs)
  then show ?case by simp
next
  case (3 j occs)
  show ?case
  proof (cases "terminal j")
    case True
    with "3.prems" show ?thesis
      by (auto simp: terminal_def nth_Cons' less_Suc_eq split: if_splits)
  next
    case False
    then have nt: "data_status j \<noteq> ''failed''" "data_status j \<noteq> ''completed''"
      by (auto simp: terminal_def)
    show ?thesis
    proof (cases i)
      case 0
      with "3.prems" nt show ?thesis by simp
    next
      case (Suc k)
      with "3.prems" nt have "k < length (broadcast occs)" "is_finished (broadcast occs ! k)"
        by simp_all
      from "3.IH" [OF nt this] Suc nt show ?thesis by simp
    qed
  qed
qed

text \<open>
  C5. In the event stream of a subscription, a finished event is emitted exactly once
  when the job record is terminal at attach time or reaches \<open>completed\<close> or
  \<open>failed\<close> while the subscription is open, and never otherwise; when it is emitted
  it is the last event of the stream, so no event of any kind follows it. On the
  subscriber's side, handling a finished event closes the connection, and no message or
  failure after it is handled; on the connection the effect made for the job, renders
  included, nothing after it changes anything but the effect's record of its
  dependencies.
\<close>

theorem finished_once_and_last:
  "length (filter is_finished (subscribe j0 occs))
     = (if terminal j0 \<or> settles occs then 1 else 0)
   \<and> (terminal j0 \<or> settles occs \<longrightarrow> is_finished (last (subscribe j0 occs)))
   \<and> (\<forall>i < length (subscribe j0 occs).
         is_finished (subscribe j0 occs ! i) \<longrightarrow> Suc i = length (subscribe j0 occs))
   \<and> \<not> eventSource (handleProgress app (Finished s))
   \<and> receive (handleProgress app (Finished s)) (filter (\<lambda>s. \<not> is_render s) sigs)
       = handleProgress app (Finished s)
   \<and> (effectDeps app = (processingId (processingState app), ''processing'') \<longrightarrow>
        (\<exists>deps. receive (handleProgress app (Finished s)) sigs
                  = (handleProgress app (Finished s))\<lparr>effectDeps := deps\<rparr>))"
proof -
  have 1: "length (filter is_finished (subscribe j0 occs))
     = (if terminal j0 \<or> settles occs then 1 else 0)"
    by (simp add: subscribe_def broadcast_count)
  have 2: "terminal j0 \<or> settles occs \<longrightarrow> is_finished (last (subscribe j0 occs))"
  proof
    assume a: "terminal j0 \<or> settles occs"
    show "is_finished (last (subscribe j0 occs))"
    proof (cases "terminal j0")
      case True
      then show ?thesis by (simp add: subscribe_def)
    next
      case False
      with a have s: "settles occs" by simp
      then have "broadcast occs \<noteq> []"
        by (cases occs rule: broadcast.cases) auto
      with False broadcast_last [OF s] show ?thesis by (simp add: subscribe_def)
    qed
  qed
  have 3: "\<forall>i < length (subscribe j0 occs).
         is_finished (subscribe j0 occs ! i) \<longrightarrow> Suc i = length (subscribe j0 occs)"
  proof (intro allI impI)
    fix i
    assume i: "i < length (subscribe j0 occs)" and f: "is_finished (subscribe j0 occs ! i)"
    show "Suc i = length (subscribe j0 occs)"
    proof (cases "terminal j0")
      case True
      with i f show ?thesis
        by (cases i) (simp_all add: subscribe_def)
    next
      case False
      show ?thesis
      proof (cases i)
        case 0
        with f show ?thesis by (simp add: subscribe_def)
      next
        case (Suc k)
        with i f False have "k < length (broadcast occs)" "is_finished (broadcast occs ! k)"
          by (simp_all add: subscribe_def)
        from broadcast_nothing_after [OF this] Suc False show ?thesis
          by (simp add: subscribe_def)
      qed
    qed
  qed
  have closed: "\<not> eventSource (handleProgress app (Finished s))"
    by (simp add: handleProgress_def)
  have 5: "receive (handleProgress app (Finished s)) (filter (\<lambda>s. \<not> is_render s) sigs)
       = handleProgress app (Finished s)"
    by (rule receive_closed [OF closed])
  have 6: "effectDeps app = (processingId (processingState app), ''processing'') \<longrightarrow>
        (\<exists>deps. receive (handleProgress app (Finished s)) sigs
                  = (handleProgress app (Finished s))\<lparr>effectDeps := deps\<rparr>)"
  proof
    assume "effectDeps app = (processingId (processingState app), ''processing'')"
    then have "status (processingState (handleProgress app (Finished s))) \<noteq> ''processing''
      \<or> effectDeps (handleProgress app (Finished s))
          = (processingId (processingState (handleProgress app (Finished s))),
             status (processingState (handleProgress app (Finished s))))"
      by (cases "status (processingState app) = ''processing''")
         (simp_all add: handleProgress_def)
    from receive_settled [OF closed this]
    show "\<exists>deps. receive (handleProgress app (Finished s)) sigs
                  = (handleProgress app (Finished s))\<lparr>effectDeps := deps\<rparr>" .
  qed
  from 1 2 3 closed 5 6 show ?thesis by (intro conjI)
qed

theorem finished_once_and_last_witness:
  "subscribe (snapshot ''upload'' ''processing'' 10)
     [Merged (snapshot ''clean'' ''processing'' 30),
      Merged (snapshot ''completed'' ''completed'' 100),
      Merged (snapshot ''completed'' ''completed'' 100)]
     = [Connected, Progress (snapshot ''clean'' ''processing'' 30),
        Progress (snapshot ''completed'' ''completed'' 100), Finished ''completed'']
   \<and> length (filter is_finished (subscribe (snapshot ''upload'' ''processing'' 10)
       [Merged (snapshot ''clean'' ''processing'' 30),
        Merged (snapshot ''completed'' ''completed'' 100),
        Merged (snapshot ''completed'' ''completed'' 100)])) = 1
   \<and> is_finished (last (subscribe (snapshot ''upload'' ''processing'' 10)
       [Merged (snapshot ''clean'' ''processing'' 30),
        Merged (snapshot ''completed'' ''completed'' 100),
        Merged (snapshot ''completed'' ''completed'' 100)]))"
proof -
  let ?j0 = "snapshot ''upload'' ''processing'' 10"
  let ?occs = "[Merged (snapshot ''clean'' ''processing'' 30),
      Merged (snapshot ''completed'' ''completed'' 100),
      Merged (snapshot ''completed'' ''completed'' 100)]"
  have h: "terminal ?j0 \<or> settles ?occs"
    by (simp add: terminal_def snapshot_def)
  from finished_once_and_last [of ?j0 ?occs] h
  have a: "length (filter is_finished (subscribe ?j0 ?occs)) = 1"
    and b: "is_finished (last (subscribe ?j0 ?occs))"
    by (simp_all only: if_True)
  have c: "subscribe ?j0 ?occs
     = [Connected, Progress (snapshot ''clean'' ''processing'' 30),
        Progress (snapshot ''completed'' ''completed'' 100), Finished ''completed'']"
    by (simp add: subscribe_def terminal_def snapshot_def)
  from c a b show ?thesis by (intro conjI)
qed

end
